theory Spec2Isabelle
  imports Main
begin

section \<open>Errors, remote sessions and the observable world\<close>

text \<open>
  The source is \<^verbatim>\<open>pkg/minikube/command/ssh_runner.go\<close>: an \<^verbatim>\<open>SSHRunner\<close> that runs
  commands and copies files through sessions of an \<^verbatim>\<open>ssh.Client\<close>.

  Go errors are values of the datatype \<open>error\<close>; a Go \<^verbatim>\<open>error\<close> that may be \<^verbatim>\<open>nil\<close>
  is an \<open>error option\<close>. The two \<^verbatim>\<open>fmt.Errorf\<close> calls of \<^verbatim>\<open>Copy\<close> have a constructor
  each, which keeps the arguments of the format string.
\<close>

datatype error =
    EOF
  | ExitError nat
  | ExitMissingError
  | ErrShortWrite
  | Failure string
  | Wrap error string
  | SizeMismatch string int int
  | ScpFailed string error string

text \<open>
  How a remote command ends. \<^verbatim>\<open>ssh.Session.Run\<close> returns \<^verbatim>\<open>nil\<close> when the command
  exits with status zero, an \<^verbatim>\<open>*ExitError\<close> when it exits with another status, an
  \<^verbatim>\<open>*ExitMissingError\<close> when no status arrives, and another error when the transport
  breaks.
\<close>

datatype outcome = Exited nat | NoStatus | Broken string

fun sess_Run :: "outcome \<Rightarrow> error option" where
  "sess_Run (Exited n) = (if n = 0 then None else Some (ExitError n))"
| "sess_Run NoStatus = Some ExitMissingError"
| "sess_Run (Broken m) = Some (Failure m)"

text \<open>
  What the remote end does with one command: the chunks its standard output and standard
  error deliver, whether a stream ends with a read error instead of end-of-stream, the
  order in which the chunks of the two streams arrive (\<open>True\<close>: the next chunk comes
  from standard output), and how the command ends.
\<close>

record behaviour =
  outStream :: "string list"
  outReadErr :: "error option"
  errStream :: "string list"
  errReadErr :: "error option"
  arrival :: "bool list"
  outcome :: outcome

text \<open>
  An \<^verbatim>\<open>*ssh.Session\<close>: its identity, the errors its pipe constructors and its
  \<^verbatim>\<open>Close\<close> return, how many bytes its standard input takes before the peer goes away
  (\<open>None\<close>: all of them), and its behaviour for each command string.
\<close>

record session =
  sid :: nat
  stdoutPipeErr :: "error option"
  stderrPipeErr :: "error option"
  stdinPipeErr :: "error option"
  stdinRoom :: "nat option"
  closeErr :: "error option"
  exec :: "string \<Rightarrow> behaviour"

text \<open>
  The \<^verbatim>\<open>ssh.Client\<close>: the result of its k-th \<^verbatim>\<open>NewSession\<close> call.
\<close>

type_synonym client = "nat \<Rightarrow> error + session"

text \<open>
  The lines written with \<^verbatim>\<open>glog.Errorf\<close>. Lines of severity info and warning change
  no result and are left out of the model.
\<close>

datatype logline = SessionClose error | TeeStderr error | TeeStdout error

record world =
  calls :: nat
  opened :: "nat list"
  closed :: "nat list"
  errlog :: "logline list"

definition NewSession :: "client \<Rightarrow> world \<Rightarrow> (error + session) \<times> world" where
  "NewSession c w =
     (case c (calls w) of
        Inl e \<Rightarrow> (Inl e, w\<lparr>calls := calls w + 1\<rparr>)
      | Inr s \<Rightarrow> (Inr (s\<lparr>sid := calls w\<rparr>),
                  w\<lparr>calls := calls w + 1, opened := opened w @ [calls w]\<rparr>))"

definition Close :: "session \<Rightarrow> world \<Rightarrow> error option \<times> world" where
  "Close s w = (closeErr s, w\<lparr>closed := closed w @ [sid s]\<rparr>)"

section \<open>Writers\<close>

text \<open>
  An \<^verbatim>\<open>io.Writer\<close> (for the standard input of a session an \<^verbatim>\<open>io.WriteCloser\<close>) that
  may stop taking bytes: \<open>requests\<close> keeps the argument of every \<^verbatim>\<open>Write\<close> call,
  \<open>accepted\<close> the bytes that were taken. A write that is not taken whole returns the
  number of bytes taken and an error, as the interface demands.
\<close>

record writer =
  accepted :: string
  requests :: "string list"
  room :: "nat option"
  closes :: nat

definition Write :: "writer \<Rightarrow> string \<Rightarrow> (nat \<times> error option) \<times> writer" where
  "Write ch p =
     (let ch1 = ch\<lparr>requests := requests ch @ [p]\<rparr> in
      if 0 < closes ch then ((0, Some EOF), ch1)
      else case room ch of
             None \<Rightarrow> ((length p, None), ch1\<lparr>accepted := accepted ch @ p\<rparr>)
           | Some n \<Rightarrow>
               if length p \<le> n
               then ((length p, None),
                     ch1\<lparr>accepted := accepted ch @ p, room := Some (n - length p)\<rparr>)
               else ((n, Some EOF),
                     ch1\<lparr>accepted := accepted ch @ take n p, room := Some 0\<rparr>))"

definition CloseWriter :: "writer \<Rightarrow> writer" where
  "CloseWriter ch = ch\<lparr>closes := closes ch + 1\<rparr>"

definition new_writer :: "nat option \<Rightarrow> writer" where
  "new_writer r = \<lparr>accepted = [], requests = [], room = r, closes = 0\<rparr>"

section \<open>The file to copy\<close>

text \<open>
  \<^verbatim>\<open>assets.CopyableFile\<close>: the getters the source calls, and the \<^verbatim>\<open>io.Reader\<close> it
  embeds. The reader delivers the chunks of \<open>content\<close>, one for each \<^verbatim>\<open>Read\<close>, and
  then end-of-stream or the error \<open>readErr\<close>; \<open>reads\<close> counts the \<^verbatim>\<open>Read\<close> calls made.
  \<^verbatim>\<open>GetLength\<close> returns a Go \<^verbatim>\<open>int\<close>.
\<close>

record CopyableFile =
  GetLength :: int
  GetPermissions :: string
  GetTargetDir :: string
  GetTargetName :: string
  content :: "string list"
  readErr :: "error option"
  reads :: nat

text \<open>
  \<^verbatim>\<open>Read\<close> on the file, and \<^verbatim>\<open>io.Copy(dst, src)\<close> of the Go library: it reads until the
  source reports an error, writes what each \<^verbatim>\<open>Read\<close> delivered, stops at the first
  write that fails or is short, and returns the number of bytes written and the error
  (none when the source ended with \<^verbatim>\<open>io.EOF\<close>).
\<close>

definition Read :: "CopyableFile \<Rightarrow> (string \<times> error option) \<times> CopyableFile" where
  "Read f =
     (case content f of
        [] \<Rightarrow> (([], Some (case readErr f of None \<Rightarrow> EOF | Some e \<Rightarrow> e)),
               f\<lparr>reads := reads f + 1\<rparr>)
      | c # cs \<Rightarrow> ((c, None), f\<lparr>content := cs, reads := reads f + 1\<rparr>))"

function io_Copy ::
  "writer \<Rightarrow> CopyableFile \<Rightarrow> int \<Rightarrow> (int \<times> error option) \<times> writer \<times> CopyableFile" where
  "io_Copy dst src written =
     (case Read src of
        ((buf, er), src') \<Rightarrow>
          if buf \<noteq> [] then
            (case Write dst buf of
               ((nw, ew), dst') \<Rightarrow>
                 if ew \<noteq> None then ((written + int nw, ew), dst', src')
                 else if length buf \<noteq> nw then ((written + int nw, Some ErrShortWrite), dst', src')
                 else (case er of
                         Some e \<Rightarrow> ((written + int nw, if e = EOF then None else Some e), dst', src')
                       | None \<Rightarrow> io_Copy dst' src' (written + int nw)))
          else (case er of
                  Some e \<Rightarrow> ((written, if e = EOF then None else Some e), dst, src')
                | None \<Rightarrow> io_Copy dst src' written))"
  by pat_completeness auto
termination
  by (relation "measure (\<lambda>(dst, src, written). length (content src))")
     (auto simp: Read_def split: list.splits)


declare io_Copy.simps [simp del]

section \<open>Teeing the output streams\<close>

text \<open>
  The buffers a call allocates live in a store indexed by address, so that
  \<^verbatim>\<open>teeSSH\<close> can be given the same buffer twice.
\<close>

type_synonym heap = "nat \<Rightarrow> string"

definition no_buffers :: heap where
  "no_buffers = (\<lambda>a. [])"

text \<open>
  Modelled from the spec: \<^verbatim>\<open>util.TeePrefix\<close> is not among the sources. A tee reads its
  pipe until end-of-stream, writes each chunk unmodified to its capture buffer, and
  returns an error only if the read fails. The two tees of \<^verbatim>\<open>teeSSH\<close> run
  concurrently; \<open>arrivals\<close> is the order in which their chunks reach the buffers, and
  \<open>write_all\<close> performs the writes in that order. Each write appends a whole chunk
  (section \<open>The synchronized capture buffer\<close> justifies this for a shared buffer).
\<close>

fun arrivals :: "bool list \<Rightarrow> string list \<Rightarrow> string list \<Rightarrow> (bool \<times> string) list" where
  "arrivals s [] ys = map (Pair False) ys"
| "arrivals s xs [] = map (Pair True) xs"
| "arrivals [] (x # xs) ys = (True, x) # arrivals [] xs ys"
| "arrivals (True # s) (x # xs) ys = (True, x) # arrivals s xs ys"
| "arrivals (False # s) xs (y # ys) = (False, y) # arrivals s xs ys"

fun write_all :: "nat \<Rightarrow> nat \<Rightarrow> (bool \<times> string) list \<Rightarrow> heap \<Rightarrow> heap" where
  "write_all outB errB [] h = h"
| "write_all outB errB ((from_out, c) # cs) h =
     write_all outB errB cs
       (if from_out then h(outB := h outB @ c) else h(errB := h errB @ c))"

definition log_tee :: "(error \<Rightarrow> logline) \<Rightarrow> error option \<Rightarrow> world \<Rightarrow> world" where
  "log_tee tag r w =
     (case r of None \<Rightarrow> w | Some e \<Rightarrow> w\<lparr>errlog := errlog w @ [tag e]\<rparr>)"

text \<open>
  \<^verbatim>\<open>teeSSH\<close>: both pipes are obtained first; then the two tees and \<^verbatim>\<open>s.Run(cmd)\<close>
  run, and the function returns after \<^verbatim>\<open>wg.Wait()\<close> with the error of \<^verbatim>\<open>s.Run\<close>. A
  tee's error is written to the log.
\<close>

definition teeSSH ::
  "session \<Rightarrow> string \<Rightarrow> nat \<Rightarrow> nat \<Rightarrow> heap \<Rightarrow> world \<Rightarrow> error option \<times> heap \<times> world" where
  "teeSSH s cmd outB errB h w =
     (case stdoutPipeErr s of
        Some e \<Rightarrow> (Some (Wrap e ''stdout''), h, w)
      | None \<Rightarrow>
     (case stderrPipeErr s of
        Some e \<Rightarrow> (Some (Wrap e ''stderr''), h, w)
      | None \<Rightarrow>
          (let b = exec s cmd;
               h' = write_all outB errB (arrivals (arrival b) (outStream b) (errStream b)) h;
               w' = log_tee TeeStdout (outReadErr b) (log_tee TeeStderr (errReadErr b) w)
           in (sess_Run (outcome b), h', w'))))"

section \<open>The runner\<close>

definition newline :: string where
  "newline = [CHR 0x0A]"

definition run_message :: "string \<Rightarrow> string \<Rightarrow> string \<Rightarrow> string" where
  "run_message cmd out err =
     ''command failed: '' @ cmd @ newline @ ''stdout: '' @ out @ newline @ ''stderr: '' @ err"

definition log_close :: "error option \<Rightarrow> world \<Rightarrow> world" where
  "log_close r w =
     (case r of
        None \<Rightarrow> w
      | Some e \<Rightarrow> if e \<noteq> EOF then w\<lparr>errlog := errlog w @ [SessionClose e]\<rparr> else w)"

text \<open>
  \<^verbatim>\<open>Run\<close>: the deferred function closes the session and logs a close error other
  than \<^verbatim>\<open>io.EOF\<close>. The buffers \<^verbatim>\<open>outB\<close> and \<^verbatim>\<open>errB\<close> are at addresses 0 and 1.
\<close>

definition Run :: "client \<Rightarrow> string \<Rightarrow> world \<Rightarrow> error option \<times> world" where
  "Run c cmd w =
     (case NewSession c w of
        (Inl e, w1) \<Rightarrow> (Some (Wrap e ''NewSession''), w1)
      | (Inr sess, w1) \<Rightarrow>
          (case teeSSH sess cmd 0 1 no_buffers w1 of
             (err, h, w2) \<Rightarrow>
               (let ret = (case err of
                             Some e \<Rightarrow> Some (Wrap e (run_message cmd (h 0) (h 1)))
                           | None \<Rightarrow> None)
                in case Close sess w2 of (cerr, w3) \<Rightarrow> (ret, log_close cerr w3))))"

text \<open>
  \<^verbatim>\<open>CombinedOutput\<close>: one \<^verbatim>\<open>singleWriter\<close>, at address 0, is given to \<^verbatim>\<open>teeSSH\<close> for
  both streams; \<^verbatim>\<open>defer sess.Close()\<close> drops the result of \<^verbatim>\<open>Close\<close>.
\<close>

definition CombinedOutput :: "client \<Rightarrow> string \<Rightarrow> world \<Rightarrow> (string \<times> error option) \<times> world" where
  "CombinedOutput c cmd w =
     (case NewSession c w of
        (Inl e, w1) \<Rightarrow> (([], Some (Wrap e ''NewSession'')), w1)
      | (Inr sess, w1) \<Rightarrow>
          (case teeSSH sess cmd 0 0 no_buffers w1 of
             (err, h, w2) \<Rightarrow>
               (let out = h 0
                in case Close sess w2 of (cerr, w3) \<Rightarrow> ((out, err), w3))))"

definition CombinedOutputTo ::
  "client \<Rightarrow> string \<Rightarrow> writer \<Rightarrow> world \<Rightarrow> error option \<times> writer \<times> world" where
  "CombinedOutputTo c cmd dst w =
     (case CombinedOutput c cmd w of
        ((out, Some e), w1) \<Rightarrow> (Some e, dst, w1)
      | ((out, None), w1) \<Rightarrow>
          (case Write dst out of ((n, err), dst') \<Rightarrow> (err, dst', w1)))"

text \<open>
  \<^verbatim>\<open>Remove\<close>: \<^verbatim>\<open>getDeleteFileCommand\<close> is not among the sources and is a parameter.
  \<^verbatim>\<open>sess.Run\<close> is called on the session directly, without tees.
\<close>

definition Remove ::
  "(CopyableFile \<Rightarrow> string) \<Rightarrow> client \<Rightarrow> CopyableFile \<Rightarrow> world \<Rightarrow> error option \<times> world" where
  "Remove getDeleteFileCommand c f w =
     (case NewSession c w of
        (Inl e, w1) \<Rightarrow> (Some (Wrap e ''getting ssh session''), w1)
      | (Inr sess, w1) \<Rightarrow>
          (let cmd = getDeleteFileCommand f;
               ret = sess_Run (outcome (exec sess cmd))
           in case Close sess w1 of (cerr, w2) \<Rightarrow> (ret, w2)))"

text \<open>
  The text \<^verbatim>\<open>CombinedOutput\<close> returns once both pipes are there: the chunks of the two
  streams, in their order of arrival.
\<close>

definition merged :: "behaviour \<Rightarrow> string" where
  "merged b = concat (map snd (arrivals (arrival b) (outStream b) (errStream b)))"

section \<open>Copy\<close>

text \<open>
  The header line of the sink protocol, \<^verbatim>\<open>fmt.Sprintf("C%s %d %s\n", ...)\<close>; \<open>show_int\<close>
  is the verb \<^verbatim>\<open>%d\<close>. The command line of the receiver is \<open>scp_cmd\<close>.
\<close>

fun digits :: "nat \<Rightarrow> string" where
  "digits n =
     (if n < 10 then [''0123456789'' ! n] else digits (n div 10) @ [''0123456789'' ! (n mod 10)])"

declare digits.simps [simp del]

definition show_int :: "int \<Rightarrow> string" where
  "show_int i = (if i < 0 then ''-'' @ digits (nat (- i)) else digits (nat i))"

definition header :: "CopyableFile \<Rightarrow> string" where
  "header f =
     ''C'' @ GetPermissions f @ '' '' @ show_int (GetLength f) @ '' '' @ GetTargetName f @ newline"

definition scp_cmd :: "CopyableFile \<Rightarrow> string" where
  "scp_cmd f = ''sudo mkdir -p '' @ GetTargetDir f @ '' && sudo scp -t '' @ GetTargetDir f"

definition terminator :: string where
  "terminator = [CHR 0x00]"

text \<open>
  \<^verbatim>\<open>Copy\<close> runs two threads: the caller, and the writer task started with \<^verbatim>\<open>g.Go\<close>.
  They share the variable \<^verbatim>\<open>err\<close> of \<^verbatim>\<open>Copy\<close> (the closure assigns it the result of
  \<^verbatim>\<open>io.Copy\<close>, the caller the result of \<^verbatim>\<open>sess.CombinedOutput\<close>); the writer alone uses
  \<^verbatim>\<open>copied\<close>, the pipe \<^verbatim>\<open>w\<close> and the reader of \<^verbatim>\<open>f\<close>. A state holds the position of
  each thread and these variables, and a step of a thread holds at most one access to
  \<^verbatim>\<open>err\<close>.

  The caller: \<open>MRun\<close>, \<^verbatim>\<open>out, err := sess.CombinedOutput(scp)\<close> returns when the remote
  command has ended; \<open>MCheck\<close>, the test of \<^verbatim>\<open>err\<close>; \<open>MWait\<close>, \<^verbatim>\<open>g.Wait()\<close>, which
  returns the writer's result once the writer has returned; \<open>MRet r\<close>, \<^verbatim>\<open>Copy\<close> has
  returned \<open>r\<close>. The test of the caller and the \<^verbatim>\<open>fmt.Errorf\<close> behind it are one step:
  \<^verbatim>\<open>fmt.Errorf\<close> never returns \<^verbatim>\<open>nil\<close>, so a second read of \<^verbatim>\<open>err\<close> there could change
  the text of the error returned and nothing else.

  The writer: \<open>WStart\<close>, the header, and for a file of length 0 the terminator, else
  \<^verbatim>\<open>copied, err = io.Copy(w, f)\<close>; \<open>WCheck\<close>, the test \<^verbatim>\<open>err != nil\<close>, and when it
  fails the test of \<^verbatim>\<open>copied\<close> and the terminator; \<open>WWrap\<close>, the second read of
  \<^verbatim>\<open>err\<close> in \<^verbatim>\<open>errors.Wrap(err, "io.Copy")\<close>, which returns \<^verbatim>\<open>nil\<close> for \<^verbatim>\<open>nil\<close>;
  \<open>WDefer r\<close>, the deferred \<^verbatim>\<open>w.Close()\<close>; \<open>WDone r\<close>, the task has returned \<open>r\<close>.
  \<^verbatim>\<open>fmt.Fprint\<close> drops the result of its \<^verbatim>\<open>Write\<close>.
\<close>

datatype mpc = MRun | MCheck | MWait | MRet "error option"

datatype wpc = WStart | WCheck | WWrap | WDefer "error option" | WDone "error option"

record copy_state =
  pc_main :: mpc
  pc_task :: wpc
  v_err :: "error option"
  v_copied :: int
  v_out :: string
  v_w :: writer
  v_f :: CopyableFile

definition Fprint :: "writer \<Rightarrow> string \<Rightarrow> writer" where
  "Fprint w p = snd (Write w p)"

definition task_step :: "copy_state \<Rightarrow> copy_state" where
  "task_step st =
     (case pc_task st of
        WStart \<Rightarrow>
          (let w1 = Fprint (v_w st) (header (v_f st)) in
           if GetLength (v_f st) = 0
           then st\<lparr>v_w := Fprint w1 terminator, pc_task := WDefer None\<rparr>
           else (case io_Copy w1 (v_f st) 0 of
                   ((n, e), w2, f2) \<Rightarrow>
                     st\<lparr>v_w := w2, v_f := f2, v_copied := n, v_err := e, pc_task := WCheck\<rparr>))
      | WCheck \<Rightarrow>
          (case v_err st of
             Some e \<Rightarrow> st\<lparr>pc_task := WWrap\<rparr>
           | None \<Rightarrow>
               if v_copied st \<noteq> GetLength (v_f st)
               then st\<lparr>pc_task := WDefer (Some (SizeMismatch (GetTargetName (v_f st))
                                                  (GetLength (v_f st)) (v_copied st)))\<rparr>
               else st\<lparr>v_w := Fprint (v_w st) terminator, pc_task := WDefer None\<rparr>)
      | WWrap \<Rightarrow>
          (case v_err st of
             Some e \<Rightarrow> st\<lparr>pc_task := WDefer (Some (Wrap e ''io.Copy''))\<rparr>
           | None \<Rightarrow> st\<lparr>pc_task := WDefer None\<rparr>)
      | WDefer r \<Rightarrow> st\<lparr>v_w := CloseWriter (v_w st), pc_task := WDone r\<rparr>
      | WDone r \<Rightarrow> st)"

definition main_step :: "session \<Rightarrow> copy_state \<Rightarrow> copy_state" where
  "main_step sess st =
     (case pc_main st of
        MRun \<Rightarrow>
          (let b = exec sess (scp_cmd (v_f st))
           in st\<lparr>v_out := merged b, v_err := sess_Run (outcome b), pc_main := MCheck\<rparr>)
      | MCheck \<Rightarrow>
          (case v_err st of
             Some e \<Rightarrow> st\<lparr>pc_main := MRet (Some (ScpFailed (scp_cmd (v_f st)) e (v_out st)))\<rparr>
           | None \<Rightarrow> st\<lparr>pc_main := MWait\<rparr>)
      | MWait \<Rightarrow>
          (case pc_task st of
             WDone r \<Rightarrow> st\<lparr>pc_main := MRet r\<rparr>
           | _ \<Rightarrow> st)
      | MRet r \<Rightarrow> st)"

text \<open>
  A schedule says which thread takes the next step; a step of a thread that is blocked
  or has returned changes nothing. \<^verbatim>\<open>Copy\<close> is run under a schedule, and has returned
  when the caller is at \<open>MRet\<close>: \<open>returned\<close> is then its result. The session is not
  closed anywhere in \<^verbatim>\<open>Copy\<close>.
\<close>

datatype tick = Main | Task

fun run_copy :: "session \<Rightarrow> tick list \<Rightarrow> copy_state \<Rightarrow> copy_state" where
  "run_copy sess [] st = st"
| "run_copy sess (Main # ts) st = run_copy sess ts (main_step sess st)"
| "run_copy sess (Task # ts) st = run_copy sess ts (task_step st)"

definition StdinPipe :: "session \<Rightarrow> error + writer" where
  "StdinPipe s = (case stdinPipeErr s of Some e \<Rightarrow> Inl e | None \<Rightarrow> Inr (new_writer (stdinRoom s)))"

datatype copy_result = Early error | Threads copy_state

definition Copy :: "client \<Rightarrow> CopyableFile \<Rightarrow> tick list \<Rightarrow> world \<Rightarrow> copy_result \<times> world" where
  "Copy c f sched w0 =
     (case NewSession c w0 of
        (Inl e, w1) \<Rightarrow> (Early (Wrap e ''NewSession''), w1)
      | (Inr sess, w1) \<Rightarrow>
          (case StdinPipe sess of
             Inl e \<Rightarrow> (Early (Wrap e ''StdinPipe''), w1)
           | Inr w \<Rightarrow>
               (Threads (run_copy sess sched
                  \<lparr>pc_main = MRun, pc_task = WStart, v_err = None, v_copied = 0, v_out = [],
                   v_w = w, v_f = f\<rparr>), w1)))"

fun returned :: "copy_result \<Rightarrow> error option option" where
  "returned (Early e) = Some (Some e)"
| "returned (Threads st) = (case pc_main st of MRet r \<Rightarrow> Some r | _ \<Rightarrow> None)"

fun stdin_of :: "copy_result \<Rightarrow> writer option" where
  "stdin_of (Early e) = None"
| "stdin_of (Threads st) = Some (v_w st)"

definition has_room :: "nat option \<Rightarrow> nat \<Rightarrow> bool" where
  "has_room r k = (case r of None \<Rightarrow> True | Some n \<Rightarrow> k \<le> n)"

subsection \<open>The states a run of Copy can reach\<close>

text \<open>
  The writer's pipe after the header and after \<^verbatim>\<open>io.Copy\<close>, the error of the remote
  command, and the invariant \<open>copy_inv\<close> of the two threads used in the proofs below.
\<close>

definition stdin0 :: "session \<Rightarrow> writer" where
  "stdin0 s = new_writer (stdinRoom s)"

definition after_header :: "session \<Rightarrow> CopyableFile \<Rightarrow> writer" where
  "after_header s f = Fprint (stdin0 s) (header f)"

definition body :: "session \<Rightarrow> CopyableFile \<Rightarrow> (int \<times> error option) \<times> writer \<times> CopyableFile" where
  "body s f = io_Copy (after_header s f) f 0"

definition cmd_err :: "session \<Rightarrow> CopyableFile \<Rightarrow> error option" where
  "cmd_err s f = sess_Run (outcome (exec s (scp_cmd f)))"

definition task_end ::
  "session \<Rightarrow> CopyableFile \<Rightarrow> error option \<Rightarrow> writer \<Rightarrow> CopyableFile \<Rightarrow> bool" where
  "task_end s f r w fl =
     (case body s f of
        ((n, e), wb, fb) \<Rightarrow>
          (GetLength f = 0 \<and> r = None \<and> w = Fprint (after_header s f) terminator \<and> fl = f) \<or>
          (GetLength f \<noteq> 0 \<and> fl = fb \<and>
             ((r = None \<and> n = GetLength f \<and> w = Fprint wb terminator) \<or>
              (r = Some (SizeMismatch (GetTargetName f) (GetLength f) n) \<and> n \<noteq> GetLength f \<and> w = wb) \<or>
              (\<exists>x. r = Some (Wrap x ''io.Copy'') \<and> w = wb \<and>
                   (Some x = cmd_err s f \<or> Some x = e)) \<or>
              (r = None \<and> w = wb \<and> e \<noteq> None \<and> cmd_err s f = None))))"

definition copy_inv :: "session \<Rightarrow> CopyableFile \<Rightarrow> copy_state \<Rightarrow> bool" where
  "copy_inv s f st =
     (case body s f of
        ((n, e), wb, fb) \<Rightarrow>
          GetLength (v_f st) = GetLength f \<and> GetTargetName (v_f st) = GetTargetName f \<and>
          GetTargetDir (v_f st) = GetTargetDir f \<and> GetPermissions (v_f st) = GetPermissions f \<and>
          (pc_main st \<noteq> MRun \<longrightarrow> v_out st = merged (exec s (scp_cmd f))) \<and>
          (pc_main st = MRun \<longrightarrow>
             v_err st = (if pc_task st = WStart \<or> GetLength f = 0 then None else e)) \<and>
          (v_err st = None \<or> v_err st = cmd_err s f \<or>
             (v_err st = e \<and> pc_task st \<noteq> WStart \<and> GetLength f \<noteq> 0)) \<and>
          (case pc_task st of
             WStart \<Rightarrow> v_w st = stdin0 s \<and> v_f st = f
           | WCheck \<Rightarrow> GetLength f \<noteq> 0 \<and> v_w st = wb \<and> v_f st = fb \<and> v_copied st = n
           | WWrap \<Rightarrow>
               GetLength f \<noteq> 0 \<and> v_w st = wb \<and> v_f st = fb \<and>
               (v_err st \<noteq> None \<or> (e \<noteq> None \<and> cmd_err s f = None \<and> pc_main st \<noteq> MRun))
           | WDefer r \<Rightarrow> task_end s f r (v_w st) (v_f st)
           | WDone r \<Rightarrow> (\<exists>w'. v_w st = CloseWriter w' \<and> task_end s f r w' (v_f st))) \<and>
          (case pc_main st of
             MRet r \<Rightarrow>
               (\<exists>x. r = Some (ScpFailed (scp_cmd f) x (merged (exec s (scp_cmd f)))) \<and>
                    (Some x = cmd_err s f \<or>
                     (Some x = e \<and> pc_task st \<noteq> WStart \<and> GetLength f \<noteq> 0))) \<or>
               pc_task st = WDone r
           | _ \<Rightarrow> True))"

definition copy_init :: "session \<Rightarrow> CopyableFile \<Rightarrow> copy_state" where
  "copy_init s f =
     \<lparr>pc_main = MRun, pc_task = WStart, v_err = None, v_copied = 0, v_out = [],
      v_w = stdin0 s, v_f = f\<rparr>"

fun wrank :: "wpc \<Rightarrow> nat" where
  "wrank WStart = 0"
| "wrank WCheck = 1"
| "wrank WWrap = 2"
| "wrank (WDefer r) = 3"
| "wrank (WDone r) = 4"

section \<open>The synchronized capture buffer\<close>

text \<open>
  \<^verbatim>\<open>singleWriter\<close> is a \<^verbatim>\<open>bytes.Buffer\<close> \<open>b\<close> behind a \<^verbatim>\<open>sync.Mutex\<close> \<open>mu\<close>; its
  \<^verbatim>\<open>Write\<close> locks, appends to the buffer and unlocks on return. Two threads (the tee of
  standard output, \<open>True\<close>, and the tee of standard error, \<open>False\<close>) each call
  \<^verbatim>\<open>Write\<close> on the chunks of their list \<open>t_todo\<close>, in order. A thread is \<open>Idle\<close>
  between two calls and \<open>Copying r\<close> inside \<^verbatim>\<open>b.Write\<close>, holding the mutex, with the
  bytes \<open>r\<close> of its chunk still to append. A step of a thread is one of: \<^verbatim>\<open>mu.Lock()\<close>,
  which is possible only while nobody holds the mutex; the append of one byte, so that
  the append of a chunk is not atomic by itself; the deferred \<^verbatim>\<open>mu.Unlock()\<close>.
\<close>

datatype tpc = Idle | Copying string

record tee_thread =
  t_pc :: tpc
  t_todo :: "string list"

record sw_state =
  sw_b :: string
  sw_mu :: "bool option"
  t_out :: tee_thread
  t_err :: tee_thread

definition thread_of :: "bool \<Rightarrow> sw_state \<Rightarrow> tee_thread" where
  "thread_of t st = (if t then t_out st else t_err st)"

definition set_thread :: "bool \<Rightarrow> tee_thread \<Rightarrow> sw_state \<Rightarrow> sw_state" where
  "set_thread t th st = (if t then st\<lparr>t_out := th\<rparr> else st\<lparr>t_err := th\<rparr>)"

definition sw_step :: "bool \<Rightarrow> sw_state \<Rightarrow> sw_state" where
  "sw_step t st =
     (let th = thread_of t st in
      case t_pc th of
        Idle \<Rightarrow>
          (case t_todo th of
             [] \<Rightarrow> st
           | p # ps \<Rightarrow>
               (case sw_mu st of
                  Some holder \<Rightarrow> st
                | None \<Rightarrow> set_thread t (th\<lparr>t_pc := Copying p\<rparr>) (st\<lparr>sw_mu := Some t\<rparr>)))
      | Copying [] \<Rightarrow>
          set_thread t (th\<lparr>t_pc := Idle, t_todo := tl (t_todo th)\<rparr>) (st\<lparr>sw_mu := None\<rparr>)
      | Copying (x # xs) \<Rightarrow>
          set_thread t (th\<lparr>t_pc := Copying xs\<rparr>) (st\<lparr>sw_b := sw_b st @ [x]\<rparr>))"

fun sw_run :: "bool list \<Rightarrow> sw_state \<Rightarrow> sw_state" where
  "sw_run [] st = st"
| "sw_run (t # ts) st = sw_run ts (sw_step t st)"

definition sw_init :: "string list \<Rightarrow> string list \<Rightarrow> sw_state" where
  "sw_init xs ys =
     \<lparr>sw_b = [], sw_mu = None, t_out = \<lparr>t_pc = Idle, t_todo = xs\<rparr>,
      t_err = \<lparr>t_pc = Idle, t_todo = ys\<rparr>\<rparr>"

definition finished :: "sw_state \<Rightarrow> bool" where
  "finished st =
     (t_pc (t_out st) = Idle \<and> t_todo (t_out st) = [] \<and>
      t_pc (t_err st) = Idle \<and> t_todo (t_err st) = [])"

text \<open>
  A thread can take a step when it is inside \<^verbatim>\<open>Write\<close>, or when it has a chunk left
  and the mutex is free; otherwise it waits in \<^verbatim>\<open>mu.Lock()\<close> or has returned. \<open>sw_exec\<close>
  runs the two tees until neither can take a step: only a thread that can take a step
  is scheduled, and when both can (both are about to lock the free mutex) the list of
  choices says which one goes first, the tee of standard output once the list is used
  up. \<open>work\<close> counts the steps the two threads still have to take.
\<close>

definition enabled :: "bool \<Rightarrow> sw_state \<Rightarrow> bool" where
  "enabled t st =
     (case t_pc (thread_of t st) of
        Copying r \<Rightarrow> True
      | Idle \<Rightarrow> t_todo (thread_of t st) \<noteq> [] \<and> sw_mu st = None)"

definition work_thread :: "tee_thread \<Rightarrow> nat" where
  "work_thread th =
     (case t_pc th of
        Idle \<Rightarrow> sum_list (map (\<lambda>p. length p + 2) (t_todo th))
      | Copying r \<Rightarrow> length r + 1 + sum_list (map (\<lambda>p. length p + 2) (tl (t_todo th))))"

definition work :: "sw_state \<Rightarrow> nat" where
  "work st = work_thread (t_out st) + work_thread (t_err st)"

function sw_exec :: "bool list \<Rightarrow> sw_state \<Rightarrow> sw_state" where
  "sw_exec ch st =
     (if enabled True st \<and> enabled False st then
        (case ch of
           [] \<Rightarrow> sw_exec [] (sw_step True st)
         | t # ch' \<Rightarrow> sw_exec ch' (sw_step t st))
      else if enabled True st then sw_exec ch (sw_step True st)
      else if enabled False st then sw_exec ch (sw_step False st)
      else st)"
  by pat_completeness auto
termination
proof -
  have dec: "work (sw_step t st) < work st" if en: "enabled t st" for t st
  proof (cases "t_pc (thread_of t st)")
    case Idle
    then obtain p ps where "t_todo (thread_of t st) = p # ps" "sw_mu st = None"
      using en Idle by (cases "t_todo (thread_of t st)") (auto simp: enabled_def)
    then show ?thesis
      using Idle
      by (cases t) (auto simp: sw_step_def work_def work_thread_def thread_of_def set_thread_def Let_def)
  next
    case (Copying r)
    then show ?thesis
      by (cases r; cases t)
         (auto simp: sw_step_def work_def work_thread_def thread_of_def set_thread_def Let_def)
  qed
  have either: "work (sw_step t st) < work st"
    if "enabled True st" and "enabled False st" for t st
    using that by (cases t) (simp_all add: dec)
  show ?thesis
    by (relation "measure (\<lambda>(ch, st). work st)") (auto simp: dec either)
qed

declare sw_exec.simps [simp del]

text \<open>
  The invariant of the runs, and the schedule on which one thread alone performs all
  the calls of a list.
\<close>

definition sw_inv :: "string list \<Rightarrow> string list \<Rightarrow> sw_state \<Rightarrow> bool" where
  "sw_inv xs ys st =
     (\<exists>dx dy zs part.
        xs = dx @ t_todo (t_out st) \<and> ys = dy @ t_todo (t_err st) \<and>
        zs \<in> shuffles dx dy \<and> sw_b st = concat zs @ part \<and>
        (case sw_mu st of
           None \<Rightarrow> t_pc (t_out st) = Idle \<and> t_pc (t_err st) = Idle \<and> part = []
         | Some t \<Rightarrow>
             t_pc (thread_of (\<not> t) st) = Idle \<and>
             (\<exists>rest ps. t_pc (thread_of t st) = Copying rest \<and>
                        t_todo (thread_of t st) = (part @ rest) # ps)))"

fun solo :: "bool \<Rightarrow> string list \<Rightarrow> bool list" where
  "solo t [] = []"
| "solo t (p # ps) = t # replicate (length p) t @ t # solo t ps"

section \<open>Diagnostics\<close>


definition tee_lines :: "behaviour \<Rightarrow> logline list" where
  "tee_lines b =
     (case errReadErr b of None \<Rightarrow> [] | Some e \<Rightarrow> [TeeStderr e]) @
     (case outReadErr b of None \<Rightarrow> [] | Some e \<Rightarrow> [TeeStdout e])"

definition close_lines :: "session \<Rightarrow> logline list" where
  "close_lines s =
     (case closeErr s of None \<Rightarrow> [] | Some e \<Rightarrow> if e = EOF then [] else [SessionClose e])"

section \<open>A concrete remote end\<close>

text \<open>
  A remote end on which the command \<^verbatim>\<open>true\<close> exits with status 0 and every other
  command with status 3. Standard error fails to read after its chunks, and closing the
  session fails.
\<close>

definition demo_exec :: "string \<Rightarrow> behaviour" where
  "demo_exec cmd =
     \<lparr>outStream = [''lo'', newline], outReadErr = None,
      errStream = [''hi'', newline], errReadErr = Some (Failure ''read''),
      arrival = [False, True],
      outcome = (if cmd = ''true'' then Exited 0 else Exited 3)\<rparr>"

definition demo_session :: session where
  "demo_session =
     \<lparr>sid = 0, stdoutPipeErr = None, stderrPipeErr = None, stdinPipeErr = None,
      stdinRoom = None, closeErr = Some (Failure ''closing''), exec = demo_exec\<rparr>"

definition demo_client :: client where
  "demo_client k = Inr demo_session"

definition world0 :: world where
  "world0 = \<lparr>calls = 0, opened = [], closed = [], errlog = []\<rparr>"

text \<open>
  A remote end on which every command succeeds silently, whose standard input takes the
  given number of bytes; and some files.
\<close>

definition quiet_exec :: "string \<Rightarrow> behaviour" where
  "quiet_exec cmd =
     \<lparr>outStream = [], outReadErr = None, errStream = [], errReadErr = None, arrival = [],
      outcome = Exited 0\<rparr>"

definition copy_session :: "nat option \<Rightarrow> session" where
  "copy_session r =
     \<lparr>sid = 0, stdoutPipeErr = None, stderrPipeErr = None, stdinPipeErr = None,
      stdinRoom = r, closeErr = None, exec = quiet_exec\<rparr>"

definition copy_client :: "nat option \<Rightarrow> client" where
  "copy_client r k = Inr (copy_session r)"

definition one_file :: CopyableFile where
  "one_file = \<lparr>GetLength = 1, GetPermissions = ''0644'', GetTargetDir = ''/etc'',
     GetTargetName = ''f'', content = [''a''], readErr = None, reads = 0\<rparr>"

definition empty_file :: CopyableFile where
  "empty_file = \<lparr>GetLength = 0, GetPermissions = ''0644'', GetTargetDir = ''/etc'',
     GetTargetName = ''f'', content = [], readErr = None, reads = 0\<rparr>"

definition short_file :: CopyableFile where
  "short_file = \<lparr>GetLength = 12, GetPermissions = ''0644'', GetTargetDir = ''/etc'',
     GetTargetName = ''motd'', content = [''hello''], readErr = None, reads = 0\<rparr>"

definition full_run :: "tick list" where
  "full_run = [Task, Task, Task, Task, Main, Main, Main]"

definition broken_file :: CopyableFile where
  "broken_file = \<lparr>GetLength = 12, GetPermissions = ''0644'', GetTargetDir = ''/etc'',
     GetTargetName = ''motd'', content = [''hello''], readErr = Some (Failure ''read failed''),
     reads = 0\<rparr>"

definition race_run :: "tick list" where
  "race_run = [Task, Task, Main, Task, Task, Main, Main]"

definition demo_file :: CopyableFile where
  "demo_file = \<lparr>GetLength = 12, GetPermissions = ''0644'', GetTargetDir = ''/etc'',
     GetTargetName = ''motd'', content = [''hello '', ''world'', newline], readErr = None, reads = 0\<rparr>"




text \<open>A schedule of the two tees on which each of them waits for the mutex once.\<close>

definition demo_sched :: "bool list" where
  "demo_sched = [True, True, False, True, True, False, False, False, False, True, False, True, True]"

section \<open>Properties of the tees\<close>

lemma write_all_same:
  "write_all a a cs h a = h a @ concat (map snd cs)"
  by (induction cs arbitrary: h) auto







lemmas demo_defs =
  no_buffers_def demo_client_def demo_session_def demo_exec_def world0_def newline_def run_message_def

section \<open>Run\<close>



section \<open>CombinedOutput and CombinedOutputTo\<close>

text \<open>
  Claim C8. \<^verbatim>\<open>CombinedOutput\<close> returns the text accumulated in its capture buffer
  together with the error: the merged chunks of both streams and the command's error
  once both pipes are obtained, whatever the outcome of the command is; the empty text
  with the error of the pipe, or of \<^verbatim>\<open>NewSession\<close>, when nothing was captured.
\<close>

theorem CombinedOutput_text:
  "fst (CombinedOutput c cmd w) =
     (case c (calls w) of
        Inl e \<Rightarrow> ([], Some (Wrap e ''NewSession''))
      | Inr s \<Rightarrow>
         (case stdoutPipeErr s of
            Some e \<Rightarrow> ([], Some (Wrap e ''stdout''))
          | None \<Rightarrow>
             (case stderrPipeErr s of
                Some e \<Rightarrow> ([], Some (Wrap e ''stderr''))
              | None \<Rightarrow> (merged (exec s cmd), sess_Run (outcome (exec s cmd))))))"
  by (auto simp: CombinedOutput_def NewSession_def teeSSH_def Close_def Let_def merged_def
      write_all_same no_buffers_def split: option.splits prod.splits sum.splits)

theorem CombinedOutput_text_witness:
  "demo_client (calls world0) = Inr demo_session \<and>
   fst (CombinedOutput demo_client ''exit 3'' world0) =
     (''hi'' @ ''lo'' @ newline @ newline, Some (ExitError 3)) \<and>
   fst (CombinedOutput demo_client ''true'' world0) =
     (''hi'' @ ''lo'' @ newline @ newline, None)"
  using CombinedOutput_text [of demo_client "''exit 3''" world0]
    CombinedOutput_text [of demo_client "''true''" world0]
  by (simp add: demo_defs merged_def)

text \<open>
  Claim C10. When \<^verbatim>\<open>CombinedOutput\<close> returns an error, \<^verbatim>\<open>CombinedOutputTo\<close> returns
  that error and leaves the destination writer as it was. When it returns none, the
  destination is what one \<^verbatim>\<open>Write\<close> of the captured text makes of it: it has received
  one more call, whose argument is the captured text, and the result is the error of
  that call.
\<close>

theorem CombinedOutputTo_forward:
  "(\<forall>e. snd (fst (CombinedOutput c cmd w)) = Some e \<longrightarrow>
      CombinedOutputTo c cmd dst w = (Some e, dst, snd (CombinedOutput c cmd w))) \<and>
   (snd (fst (CombinedOutput c cmd w)) = None \<longrightarrow>
      CombinedOutputTo c cmd dst w =
        (snd (fst (Write dst (fst (fst (CombinedOutput c cmd w))))),
         snd (Write dst (fst (fst (CombinedOutput c cmd w)))),
         snd (CombinedOutput c cmd w)) \<and>
      requests (fst (snd (CombinedOutputTo c cmd dst w))) =
        requests dst @ [fst (fst (CombinedOutput c cmd w))])"
  by (auto simp: CombinedOutputTo_def Write_def Let_def split: prod.splits option.splits)

theorem CombinedOutputTo_forward_witness:
  "snd (fst (CombinedOutput demo_client ''exit 3'' world0)) = Some (ExitError 3) \<and>
   fst (CombinedOutputTo demo_client ''exit 3'' (new_writer None) world0) = Some (ExitError 3) \<and>
   fst (snd (CombinedOutputTo demo_client ''exit 3'' (new_writer None) world0)) = new_writer None \<and>
   snd (fst (CombinedOutput demo_client ''true'' world0)) = None \<and>
   fst (CombinedOutputTo demo_client ''true'' (new_writer None) world0) = None \<and>
   requests (fst (snd (CombinedOutputTo demo_client ''true'' (new_writer None) world0))) =
     [''hi'' @ ''lo'' @ newline @ newline] \<and>
   accepted (fst (snd (CombinedOutputTo demo_client ''true'' (new_writer None) world0))) =
     ''hi'' @ ''lo'' @ newline @ newline"
  using CombinedOutputTo_forward [of demo_client "''exit 3''" world0 "new_writer None"]
    CombinedOutputTo_forward [of demo_client "''true''" world0 "new_writer None"]
  by (simp add: demo_defs merged_def new_writer_def CombinedOutput_def NewSession_def teeSSH_def
      Close_def Write_def)

section \<open>Properties of io.Copy\<close>

lemma Write_open:
  assumes "Write dst p = ((nw, ew), dst')" and "closes dst = 0"
  shows "accepted dst' = accepted dst @ take nw p"
    and "nw \<le> length p"
    and "room dst' = (case room dst of None \<Rightarrow> None | Some r \<Rightarrow> Some (r - nw))"
    and "room dst = Some r \<Longrightarrow> nw \<le> r"
    and "closes dst' = 0"
    and "requests dst' = requests dst @ [p]"
    and "ew \<noteq> None \<Longrightarrow> room dst' = Some 0"
    and "ew = None \<Longrightarrow> nw = length p"
    and "room dst = None \<Longrightarrow> ew = None"
  using assms by (auto simp: Write_def Let_def split: option.splits if_splits)

lemma io_Copy_Nil:
  "content src = [] \<Longrightarrow>
     io_Copy dst src written =
       ((written, case readErr src of None \<Rightarrow> None | Some x \<Rightarrow> if x = EOF then None else Some x),
        dst, src\<lparr>reads := reads src + 1\<rparr>)"
  by (subst io_Copy.simps) (simp add: Read_def split: option.splits)

lemma io_Copy_Cons:
  "content src = c # cs \<Longrightarrow>
     io_Copy dst src written =
       (if c \<noteq> [] then
          (case Write dst c of
             ((nw, ew), dst') \<Rightarrow>
               if ew \<noteq> None then ((written + int nw, ew), dst', src\<lparr>content := cs, reads := reads src + 1\<rparr>)
               else if length c \<noteq> nw
                 then ((written + int nw, Some ErrShortWrite), dst', src\<lparr>content := cs, reads := reads src + 1\<rparr>)
               else io_Copy dst' (src\<lparr>content := cs, reads := reads src + 1\<rparr>) (written + int nw))
        else io_Copy dst (src\<lparr>content := cs, reads := reads src + 1\<rparr>) written)"
  by (subst io_Copy.simps) (simp add: Read_def split: prod.splits)

lemma io_Copy_accepted:
  "io_Copy dst src written = ((n, e), dst', src') \<Longrightarrow> closes dst = 0 \<Longrightarrow>
     written \<le> n \<and>
     accepted dst' = accepted dst @ take (nat (n - written)) (concat (content src)) \<and>
     nat (n - written) \<le> length (concat (content src)) \<and>
     closes dst' = 0 \<and>
     room dst' = (case room dst of None \<Rightarrow> None | Some r \<Rightarrow> Some (r - nat (n - written))) \<and>
     (\<forall>r. room dst = Some r \<longrightarrow> nat (n - written) \<le> r)"
proof (induction "content src" arbitrary: src dst written)
  case Nil
  then show ?case
    using io_Copy_Nil [of src dst written] by (auto split: option.splits)
next
  case (Cons c cs)
  let ?src1 = "src\<lparr>content := cs, reads := reads src + 1\<rparr>"
  have cs: "cs = content ?src1" by simp
  have cont: "concat (content src) = c @ concat cs"
    using Cons.hyps(2) [symmetric] by simp
  obtain nw ew dst1 where W: "Write dst c = ((nw, ew), dst1)"
    by (metis prod.exhaust)
  note Wf = Write_open [OF W Cons.prems(2)]
  show ?case
  proof (cases "c = []")
    case True
    then have "io_Copy dst ?src1 written = ((n, e), dst', src')"
      using Cons.prems(1) io_Copy_Cons [OF Cons.hyps(2) [symmetric], of dst written] by simp
    from Cons.hyps(1) [OF cs this Cons.prems(2)] show ?thesis
      using cont True by simp
  next
    case False
    show ?thesis
    proof (cases "ew = None \<and> length c = nw")
      case True
      then have rec: "io_Copy dst1 ?src1 (written + int nw) = ((n, e), dst', src')"
        using Cons.prems(1) io_Copy_Cons [OF Cons.hyps(2) [symmetric], of dst written] W False
        by simp
      note IH = Cons.hyps(1) [OF cs rec Wf(5)]
      have k: "nat (n - written) = nw + nat (n - (written + int nw))"
        using IH by linarith
      show ?thesis
        using IH True Wf(1,3,4) cont k by (auto split: option.splits)
    next
      case stop: False
      then have "n = written + int nw" "dst' = dst1"
        using Cons.prems(1) io_Copy_Cons [OF Cons.hyps(2) [symmetric], of dst written] W False
        by (auto split: if_splits)
      then show ?thesis
        using Wf cont by (auto split: option.splits)
    qed
  qed
qed


lemma io_Copy_complete:
  "io_Copy dst src written = ((n, e), dst', src') \<Longrightarrow> closes dst = 0 \<Longrightarrow>
     (nat (n - written) = length (concat (content src)) \<or> room dst' = Some 0) \<and>
     (e = None \<longrightarrow> nat (n - written) = length (concat (content src))) \<and>
     (room dst = None \<longrightarrow>
        e = (case readErr src of None \<Rightarrow> None | Some x \<Rightarrow> if x = EOF then None else Some x))"
proof (induction "content src" arbitrary: src dst written)
  case Nil
  then show ?case
    using io_Copy_Nil [of src dst written] by (auto split: option.splits)
next
  case (Cons c cs)
  let ?src1 = "src\<lparr>content := cs, reads := reads src + 1\<rparr>"
  have cs: "cs = content ?src1" by simp
  have cont: "concat (content src) = c @ concat cs"
    using Cons.hyps(2) [symmetric] by simp
  obtain nw ew dst1 where W: "Write dst c = ((nw, ew), dst1)"
    by (metis prod.exhaust)
  note Wf = Write_open [OF W Cons.prems(2)]
  show ?case
  proof (cases "c = []")
    case True
    then have "io_Copy dst ?src1 written = ((n, e), dst', src')"
      using Cons.prems(1) io_Copy_Cons [OF Cons.hyps(2) [symmetric], of dst written] by simp
    from Cons.hyps(1) [OF cs this Cons.prems(2)] show ?thesis
      using cont True by simp
  next
    case False
    show ?thesis
    proof (cases "ew = None \<and> length c = nw")
      case True
      then have rec: "io_Copy dst1 ?src1 (written + int nw) = ((n, e), dst', src')"
        using Cons.prems(1) io_Copy_Cons [OF Cons.hyps(2) [symmetric], of dst written] W False
        by simp
      note IH = Cons.hyps(1) [OF cs rec Wf(5)]
      have "written + int nw \<le> n"
        using io_Copy_accepted [OF rec Wf(5)] by simp
      then have k: "nat (n - written) = nw + nat (n - (written + int nw))"
        by linarith
      show ?thesis
        using IH True Wf(3) cont k by (auto split: option.splits)
    next
      case stop: False
      then have "n = written + int nw" "dst' = dst1" "e \<noteq> None"
        using Cons.prems(1) io_Copy_Cons [OF Cons.hyps(2) [symmetric], of dst written] W False
        by (auto split: if_splits)
      then show ?thesis
        using Wf cont stop by (auto split: option.splits)
    qed
  qed
qed

lemma io_Copy_file:
  "io_Copy dst src written = ((n, e), dst', src') \<Longrightarrow>
     GetLength src' = GetLength src \<and> GetTargetName src' = GetTargetName src \<and>
     GetTargetDir src' = GetTargetDir src \<and> GetPermissions src' = GetPermissions src \<and>
     reads src < reads src'"
proof (induction "content src" arbitrary: src dst written)
  case Nil
  then show ?case
    using io_Copy_Nil [of src dst written] by (auto split: option.splits)
next
  case (Cons c cs)
  let ?src1 = "src\<lparr>content := cs, reads := reads src + 1\<rparr>"
  have cs: "cs = content ?src1" by simp
  show ?case
    using Cons.prems Cons.hyps(1) [OF cs, of _ _ ] io_Copy_Cons [OF Cons.hyps(2) [symmetric], of dst written]
    by (fastforce split: if_splits prod.splits)
qed

lemma io_Copy_requests:
  "io_Copy dst src written = ((n, e), dst', src') \<Longrightarrow>
     \<exists>j. requests dst' = requests dst @ filter (\<lambda>c. c \<noteq> []) (take j (content src))"
proof (induction "content src" arbitrary: src dst written)
  case Nil
  then show ?case
    using io_Copy_Nil [of src dst written] by (auto split: option.splits)
next
  case (Cons c cs)
  let ?src1 = "src\<lparr>content := cs, reads := reads src + 1\<rparr>"
  have cs: "cs = content ?src1" by simp
  have cont: "content src = c # cs"
    using Cons.hyps(2) by simp
  obtain nw ew dst1 where W: "Write dst c = ((nw, ew), dst1)"
    by (metis prod.exhaust)
  have rq: "requests dst1 = requests dst @ [c]"
    using W by (auto simp: Write_def Let_def split: option.splits if_splits)
  show ?case
  proof (cases "c = []")
    case True
    then have "io_Copy dst ?src1 written = ((n, e), dst', src')"
      using Cons.prems(1) io_Copy_Cons [OF cont, of dst written] by simp
    from Cons.hyps(1) [OF cs this] obtain j where
      "requests dst' = requests dst @ filter (\<lambda>c. c \<noteq> []) (take j cs)" by auto
    then have "requests dst' = requests dst @ filter (\<lambda>c. c \<noteq> []) (take (Suc j) (content src))"
      using True cont by simp
    then show ?thesis by blast
  next
    case False
    show ?thesis
    proof (cases "ew = None \<and> length c = nw")
      case True
      then have rec: "io_Copy dst1 ?src1 (written + int nw) = ((n, e), dst', src')"
        using Cons.prems(1) io_Copy_Cons [OF cont, of dst written] W False
        by simp
      from Cons.hyps(1) [OF cs rec] obtain j where
        "requests dst' = requests dst1 @ filter (\<lambda>c. c \<noteq> []) (take j cs)" by auto
      then have "requests dst' = requests dst @ filter (\<lambda>c. c \<noteq> []) (take (Suc j) (content src))"
        using False cont rq by simp
      then show ?thesis by blast
    next
      case stop: False
      then have "dst' = dst1"
        using Cons.prems(1) io_Copy_Cons [OF cont, of dst written] W False
        by (auto split: if_splits)
      then have "requests dst' = requests dst @ filter (\<lambda>c. c \<noteq> []) (take (Suc 0) (content src))"
        using False cont rq by simp
      then show ?thesis by blast
    qed
  qed
qed

lemma io_Copy_requests_all:
  "io_Copy dst src written = ((n, None), dst', src') \<Longrightarrow>
     requests dst' = requests dst @ filter (\<lambda>c. c \<noteq> []) (content src)"
proof (induction "content src" arbitrary: src dst written)
  case Nil
  then show ?case
    using io_Copy_Nil [of src dst written] by (auto split: option.splits)
next
  case (Cons c cs)
  let ?src1 = "src\<lparr>content := cs, reads := reads src + 1\<rparr>"
  have cs: "cs = content ?src1" by simp
  have cont: "content src = c # cs"
    using Cons.hyps(2) by simp
  obtain nw ew dst1 where W: "Write dst c = ((nw, ew), dst1)"
    by (metis prod.exhaust)
  have rq: "requests dst1 = requests dst @ [c]"
    using W by (auto simp: Write_def Let_def split: option.splits if_splits)
  show ?case
  proof (cases "c = []")
    case True
    then have "io_Copy dst ?src1 written = ((n, None), dst', src')"
      using Cons.prems(1) io_Copy_Cons [OF cont, of dst written] by simp
    from Cons.hyps(1) [OF cs this] show ?thesis
      using True cont by simp
  next
    case False
    then have "io_Copy dst1 ?src1 (written + int nw) = ((n, None), dst', src')"
      using Cons.prems(1) io_Copy_Cons [OF cont, of dst written] W
      by (auto split: if_splits)
    from Cons.hyps(1) [OF cs this] show ?thesis
      using False cont rq by simp
  qed
qed

lemma io_Copy_no_error:
  "io_Copy dst src written = ((n, e), dst', src') \<Longrightarrow> closes dst = 0 \<Longrightarrow>
     has_room (room dst) (length (concat (content src))) \<Longrightarrow>
     readErr src = None \<or> readErr src = Some EOF \<Longrightarrow> e = None"
proof (induction "content src" arbitrary: src dst written)
  case Nil
  then show ?case
    using io_Copy_Nil [of src dst written] by (auto split: option.splits)
next
  case (Cons c cs)
  let ?src1 = "src\<lparr>content := cs, reads := reads src + 1\<rparr>"
  have cs: "cs = content ?src1" by simp
  have cont: "content src = c # cs"
    using Cons.hyps(2) by simp
  have rd: "readErr ?src1 = None \<or> readErr ?src1 = Some EOF"
    using Cons.prems(4) by simp
  obtain nw ew dst1 where W: "Write dst c = ((nw, ew), dst1)"
    by (metis prod.exhaust)
  have ok: "ew = None" "nw = length c" "closes dst1 = 0" "has_room (room dst1) (length (concat cs))"
    using W Cons.prems(2,3) cont
    by (auto simp: Write_def Let_def has_room_def split: option.splits if_splits)
  show ?case
  proof (cases "c = []")
    case True
    then have "io_Copy dst ?src1 written = ((n, e), dst', src')"
      using Cons.prems(1) io_Copy_Cons [OF cont, of dst written] by simp
    moreover have "has_room (room dst) (length (concat (content ?src1)))"
      using Cons.prems(3) cont True by simp
    ultimately show ?thesis
      using Cons.hyps(1) [OF cs _ Cons.prems(2) _ rd] by blast
  next
    case False
    then have "io_Copy dst1 ?src1 (written + int nw) = ((n, e), dst', src')"
      using Cons.prems(1) io_Copy_Cons [OF cont, of dst written] W ok by simp
    moreover have "has_room (room dst1) (length (concat (content ?src1)))"
      using ok(4) by simp
    ultimately show ?thesis
      using Cons.hyps(1) [OF cs _ ok(3) _ rd] by blast
  qed
qed

section \<open>The invariant of Copy\<close>

lemma copy_inv_init: "copy_inv s f (copy_init s f)"
  by (simp add: copy_inv_def copy_init_def split: prod.splits)

lemma copy_inv_getters:
  assumes "copy_inv s f st"
  shows "scp_cmd (v_f st) = scp_cmd f" and "header (v_f st) = header f"
    and "GetLength (v_f st) = GetLength f" and "GetTargetName (v_f st) = GetTargetName f"
  using assms by (auto simp: copy_inv_def scp_cmd_def header_def split: prod.splits)

lemma copy_inv_main: "copy_inv s f st \<Longrightarrow> copy_inv s f (main_step s st)"
proof -
  assume inv: "copy_inv s f st"
  note g = copy_inv_getters [OF inv]
  obtain n e wb fb where B: "body s f = ((n, e), wb, fb)"
    by (metis prod.exhaust)
  show ?thesis
  proof (cases "pc_main st")
    case MRun
    then have "main_step s st =
        st\<lparr>v_out := merged (exec s (scp_cmd f)), v_err := cmd_err s f, pc_main := MCheck\<rparr>"
      using g(1) by (simp add: main_step_def Let_def cmd_err_def)
    then show ?thesis
      using inv B MRun unfolding copy_inv_def
      by (cases "pc_task st") auto
  next
    case MCheck
    show ?thesis
    proof (cases "v_err st")
      case None
      then have "main_step s st = st\<lparr>pc_main := MWait\<rparr>"
        using MCheck by (simp add: main_step_def)
      then show ?thesis
        using inv B MCheck unfolding copy_inv_def
        by (cases "pc_task st") auto
    next
      case (Some x)
      then have "main_step s st =
          st\<lparr>pc_main := MRet (Some (ScpFailed (scp_cmd f) x (merged (exec s (scp_cmd f)))))\<rparr>"
        using MCheck g(1) inv by (simp add: main_step_def copy_inv_def split: prod.splits)
      then show ?thesis
        using inv B MCheck Some unfolding copy_inv_def
        by (cases "pc_task st") auto
    qed
  next
    case MWait
    show ?thesis
    proof (cases "pc_task st")
      case (WDone r)
      then have "main_step s st = st\<lparr>pc_main := MRet r\<rparr>"
        using MWait by (simp add: main_step_def)
      then show ?thesis
        using inv B MWait WDone unfolding copy_inv_def by auto
    qed (use inv MWait in \<open>simp_all add: main_step_def\<close>)
  next
    case (MRet r)
    then show ?thesis
      using inv unfolding main_step_def by simp
  qed
qed

lemma copy_inv_task: "copy_inv s f st \<Longrightarrow> copy_inv s f (task_step st)"
proof -
  assume inv: "copy_inv s f st"
  note g = copy_inv_getters [OF inv]
  obtain n e wb fb where B: "body s f = ((n, e), wb, fb)"
    by (metis prod.exhaust)
  have getters: "GetLength fb = GetLength f" "GetTargetName fb = GetTargetName f"
    "GetTargetDir fb = GetTargetDir f" "GetPermissions fb = GetPermissions f"
    using io_Copy_file [OF B [unfolded body_def]] by simp_all
  show ?thesis
  proof (cases "pc_task st")
    case WStart
    then have start: "v_w st = stdin0 s" "v_f st = f"
      using inv by (auto simp: copy_inv_def split: prod.splits)
    show ?thesis
    proof (cases "GetLength f = 0")
      case True
      then have "task_step st = st\<lparr>v_w := Fprint (after_header s f) terminator, pc_task := WDefer None\<rparr>"
        using WStart start by (simp add: task_step_def Let_def after_header_def)
      then show ?thesis
        using inv B True WStart start unfolding copy_inv_def
        by (cases "pc_main st") (auto simp: task_end_def)
    next
      case False
      then have "task_step st = st\<lparr>v_w := wb, v_f := fb, v_copied := n, v_err := e, pc_task := WCheck\<rparr>"
        using WStart start B by (simp add: task_step_def Let_def after_header_def body_def)
      then show ?thesis
        using inv B False WStart getters unfolding copy_inv_def
        by (cases "pc_main st") auto
    qed
  next
    case WCheck
    then have chk: "GetLength f \<noteq> 0" "v_w st = wb" "v_f st = fb" "v_copied st = n"
      using inv B by (auto simp: copy_inv_def)
    show ?thesis
    proof (cases "v_err st")
      case None
      show ?thesis
      proof (cases "n = GetLength f")
        case True
        then have "task_step st = st\<lparr>v_w := Fprint wb terminator, pc_task := WDefer None\<rparr>"
          using WCheck chk None getters by (simp add: task_step_def)
        then show ?thesis
          using inv B True WCheck chk unfolding copy_inv_def
          by (cases "pc_main st") (auto simp: task_end_def)
      next
        case False
        then have "task_step st =
            st\<lparr>pc_task := WDefer (Some (SizeMismatch (GetTargetName f) (GetLength f) n))\<rparr>"
          using WCheck chk None getters by (simp add: task_step_def)
        then show ?thesis
          using inv B False WCheck chk unfolding copy_inv_def
          by (cases "pc_main st") (auto simp: task_end_def)
      qed
    next
      case (Some x)
      then have "task_step st = st\<lparr>pc_task := WWrap\<rparr>"
        using WCheck by (simp add: task_step_def)
      moreover have "v_err st \<noteq> None"
        using Some by simp
      ultimately show ?thesis
        using inv B WCheck chk unfolding copy_inv_def
        by (cases "pc_main st") auto
    qed
  next
    case WWrap
    then have chk: "GetLength f \<noteq> 0" "v_w st = wb" "v_f st = fb"
      and raced: "v_err st \<noteq> None \<or> (e \<noteq> None \<and> cmd_err s f = None \<and> pc_main st \<noteq> MRun)"
      using inv B by (auto simp: copy_inv_def)
    show ?thesis
    proof (cases "v_err st")
      case None
      then have "task_step st = st\<lparr>pc_task := WDefer None\<rparr>"
        using WWrap by (simp add: task_step_def)
      then show ?thesis
        using inv B None WWrap chk raced unfolding copy_inv_def
        by (cases "pc_main st") (auto simp: task_end_def)
    next
      case (Some x)
      then have "task_step st = st\<lparr>pc_task := WDefer (Some (Wrap x ''io.Copy''))\<rparr>"
        using WWrap by (simp add: task_step_def)
      then show ?thesis
        using inv B Some WWrap chk unfolding copy_inv_def
        by (cases "pc_main st") (auto simp: task_end_def)
    qed
  next
    case (WDefer r)
    then have "task_step st = st\<lparr>v_w := CloseWriter (v_w st), pc_task := WDone r\<rparr>"
      by (simp add: task_step_def)
    then show ?thesis
      using inv B WDefer unfolding copy_inv_def
      by (cases "pc_main st") auto
  next
    case (WDone r)
    then show ?thesis
      using inv unfolding task_step_def by simp
  qed
qed

lemma copy_inv_run: "copy_inv s f st \<Longrightarrow> copy_inv s f (run_copy s ts st)"
proof (induction ts arbitrary: st)
  case Nil
  then show ?case by simp
next
  case (Cons t ts)
  then show ?case
    by (cases t) (simp_all add: copy_inv_main copy_inv_task)
qed

lemma main_step_sid [simp]: "main_step (s\<lparr>sid := k\<rparr>) st = main_step s st"
  by (cases "pc_main st") (simp_all add: main_step_def)

lemma run_copy_sid [simp]: "run_copy (s\<lparr>sid := k\<rparr>) ts st = run_copy s ts st"
  by (induction s ts st rule: run_copy.induct) simp_all

lemma Copy_threads:
  assumes "c (calls w) = Inr s" and "stdinPipeErr s = None"
  shows "fst (Copy c f ts w) = Threads (run_copy s ts (copy_init s f))"
  using assms by (simp add: Copy_def NewSession_def StdinPipe_def copy_init_def stdin0_def)

lemma Copy_inv:
  assumes "c (calls w) = Inr s" and "fst (Copy c f ts w) = Threads st"
  shows "copy_inv s f st" and "stdinPipeErr s = None"
proof -
  show p: "stdinPipeErr s = None"
    using assms by (auto simp: Copy_def NewSession_def StdinPipe_def split: option.splits)
  show "copy_inv s f st"
    using assms p Copy_threads [of c w s f ts] copy_inv_run [OF copy_inv_init, of s f ts]
    by simp
qed

text \<open>The state of the channel along the writer's path.\<close>

lemma header_written:
  obtains nw ew where "Write (stdin0 s) (header f) = ((nw, ew), after_header s f)"
  by (metis after_header_def Fprint_def prod.collapse)

lemma after_header_facts:
  shows "closes (after_header s f) = 0"
    and "accepted (after_header s f) =
           take (case stdinRoom s of None \<Rightarrow> length (header f) | Some r \<Rightarrow> r) (header f)"
    and "requests (after_header s f) = [header f]"
    and "has_room (stdinRoom s) (length (header f)) \<Longrightarrow>
           accepted (after_header s f) = header f \<and>
           room (after_header s f) =
             (case stdinRoom s of None \<Rightarrow> None | Some r \<Rightarrow> Some (r - length (header f)))"
    and "accepted (after_header s f) = header f \<or> room (after_header s f) = Some 0"
  by (auto simp: after_header_def Fprint_def Write_def stdin0_def new_writer_def Let_def has_room_def
      split: option.splits)


lemma body_facts:
  assumes "body s f = ((n, e), wb, fb)"
  shows "0 \<le> n"
    and "accepted wb = accepted (after_header s f) @ take (nat n) (concat (content f))"
    and "nat n \<le> length (concat (content f))"
    and "closes wb = 0"
    and "room wb = (case room (after_header s f) of None \<Rightarrow> None | Some r \<Rightarrow> Some (r - nat n))"
    and "\<And>r. room (after_header s f) = Some r \<Longrightarrow> nat n \<le> r"
    and "nat n = length (concat (content f)) \<or> room wb = Some 0"
    and "e = None \<Longrightarrow> nat n = length (concat (content f))"
    and "room (after_header s f) = None \<Longrightarrow>
           e = (case readErr f of None \<Rightarrow> None | Some x \<Rightarrow> if x = EOF then None else Some x)"
    and "\<exists>j. requests wb = header f # filter (\<lambda>c. c \<noteq> []) (take j (content f))"
  using io_Copy_accepted [OF assms [unfolded body_def] after_header_facts(1)]
    io_Copy_complete [OF assms [unfolded body_def] after_header_facts(1)]
    io_Copy_requests [OF assms [unfolded body_def]]
  by (simp_all add: after_header_facts(3) cong: option.case_cong)


lemma Fprint_terminator:
  assumes "closes w = 0"
  shows "accepted (Fprint w terminator) = accepted w @ (if has_room (room w) 1 then terminator else [])"
    and "closes (Fprint w terminator) = 0"
    and "requests (Fprint w terminator) = requests w @ [terminator]"
  using assms
  by (auto simp: Fprint_def Write_def Let_def has_room_def terminator_def split: option.splits)

lemma returned_None:
  assumes "copy_inv s f st" and "pc_main st = MRet None"
  shows "pc_task st = WDone None"
  using assms by (auto simp: copy_inv_def split: prod.splits)


lemma body_no_error:
  assumes "body s f = ((n, e), wb, fb)"
    and "readErr f = None \<or> readErr f = Some EOF"
    and "has_room (stdinRoom s) (length (header f) + length (concat (content f)))"
  shows "e = None" and "n = int (length (concat (content f)))"
proof -
  have "has_room (stdinRoom s) (length (header f))"
    using assms(3) by (auto simp: has_room_def split: option.splits)
  note ah = after_header_facts(4) [OF this]
  have room: "has_room (room (after_header s f)) (length (concat (content f)))"
    using ah assms(3) by (auto simp: has_room_def split: option.splits)
  show e: "e = None"
    using io_Copy_no_error [OF assms(1) [unfolded body_def] after_header_facts(1) room assms(2)] .
  show "n = int (length (concat (content f)))"
    using body_facts(1,8) [OF assms(1)] e by simp
qed

lemmas copy_eval =
  Copy_def NewSession_def StdinPipe_def main_step_def task_step_def scp_cmd_def header_def
  show_int_def digits.simps Fprint_def Write_def CloseWriter_def new_writer_def terminator_def
  io_Copy.simps Read_def merged_def Let_def full_run_def race_run_def broken_file_def
  copy_client_def copy_session_def quiet_exec_def one_file_def empty_file_def short_file_def
  demo_file_def demo_defs


section \<open>Copy returns\<close>

text \<open>
  Under every schedule that goes on with four steps of the writer and three steps of
  the caller, \<^verbatim>\<open>Copy\<close> has returned.
\<close>

lemma run_copy_append: "run_copy s (ts @ us) st = run_copy s us (run_copy s ts st)"
  by (induction s ts st rule: run_copy.induct) simp_all

lemma task_step_rank: "min 4 (Suc (wrank (pc_task st))) \<le> wrank (pc_task (task_step st))"
proof (cases "pc_task st")
  case WStart
  then show ?thesis
    by (cases "io_Copy (Fprint (v_w st) (header (v_f st))) (v_f st) 0")
       (auto simp: task_step_def Let_def)
next
  case WCheck
  then show ?thesis
    by (cases "v_err st") (auto simp: task_step_def)
next
  case WWrap
  then show ?thesis
    by (cases "v_err st") (auto simp: task_step_def)
qed (auto simp: task_step_def)

lemma task_finishes:
  "\<exists>r. pc_task (task_step (task_step (task_step (task_step st)))) = WDone r"
proof -
  have "4 \<le> wrank (pc_task (task_step (task_step (task_step (task_step st)))))"
    using task_step_rank [of st] task_step_rank [of "task_step st"]
      task_step_rank [of "task_step (task_step st)"]
      task_step_rank [of "task_step (task_step (task_step st))"]
    by linarith
  then show ?thesis
    by (cases "pc_task (task_step (task_step (task_step (task_step st))))") auto
qed

lemma main_keeps_task: "pc_task (main_step s st) = pc_task st"
  by (cases "pc_main st"; cases "v_err st"; cases "pc_task st") (auto simp: main_step_def Let_def)

lemma main_returns:
  "pc_task st = WDone r \<Longrightarrow> \<exists>x. pc_main (main_step s (main_step s (main_step s st))) = MRet x"
  by (cases "pc_main st"; cases "v_err st";
      cases "sess_Run (outcome (exec s (scp_cmd (v_f st))))")
     (auto simp: main_step_def Let_def)

lemma Copy_terminates:
  "\<exists>r. returned (fst (Copy c f (ts @ full_run) w)) = Some r"
proof (cases "fst (Copy c f (ts @ full_run) w)")
  case (Early e)
  then show ?thesis by simp
next
  case (Threads st)
  then obtain s0 where st: "st = run_copy s0 full_run (run_copy s0 ts (copy_init s0 f))"
    by (auto simp: Copy_def NewSession_def StdinPipe_def run_copy_append copy_init_def stdin0_def
        split: sum.splits option.splits)
  let ?a = "run_copy s0 ts (copy_init s0 f)"
  obtain r where "pc_task (task_step (task_step (task_step (task_step ?a)))) = WDone r"
    using task_finishes by blast
  from main_returns [OF this, of s0] obtain x where "pc_main st = MRet x"
    using st by (auto simp: full_run_def)
  then show ?thesis
    using Threads by simp
qed

section \<open>What Copy sends\<close>

text \<open>
  When the source ends without a read error and the channel has room for the header and
  the content, so that \<^verbatim>\<open>io.Copy\<close> reports no error, a \<^verbatim>\<open>Copy\<close> of a file of positive
  declared length that returns no error has written the header, the chunks of the
  content and the terminator, and the content has the declared length.
\<close>

lemma Copy_success_without_copy_error:
  assumes "c (calls w) = Inr s" and "fst (Copy c f ts w) = Threads st"
    and "pc_main st = MRet None" and "0 < GetLength f"
    and "readErr f = None \<or> readErr f = Some EOF"
    and "has_room (stdinRoom s) (length (header f) + length (concat (content f)))"
  shows "requests (v_w st) = header f # filter (\<lambda>c. c \<noteq> []) (content f) @ [terminator]"
    and "int (length (concat (content f))) = GetLength f"
proof -
  note inv = Copy_inv(1) [OF assms(1,2)]
  obtain n e wb fb where B: "body s f = ((n, e), wb, fb)"
    by (metis prod.exhaust)
  note ne = body_no_error [OF B assms(5,6)]
  have len: "GetLength f \<noteq> 0" using assms(4) by simp
  have task: "pc_task st = WDone None"
    using inv assms(3) by (auto simp: copy_inv_def split: prod.splits)
  then have fin: "n = GetLength f" "v_w st = CloseWriter (Fprint wb terminator)"
    using inv B len ne(1) by (auto simp: copy_inv_def task_end_def)
  have "requests wb = header f # filter (\<lambda>c. c \<noteq> []) (content f)"
    using io_Copy_requests_all [of "after_header s f" f 0 n wb fb] B ne(1)
      after_header_facts(3) [of s f]
    by (simp add: body_def)
  then show "requests (v_w st) = header f # filter (\<lambda>c. c \<noteq> []) (content f) @ [terminator]"
    using fin(2) Fprint_terminator(3) [OF body_facts(4) [OF B]] by (simp add: CloseWriter_def)
  show "int (length (concat (content f))) = GetLength f"
    using fin(1) ne(2) by simp
qed


text \<open>
  Claim C2 at a failing input. The file declares 12 bytes; its source delivers 5 and then
  a read error, so \<^verbatim>\<open>io.Copy\<close> returns that error and the writer's test
  \<^verbatim>\<open>err != nil\<close> succeeds. The remote command exits with status 0 and the caller
  assigns \<^verbatim>\<open>nil\<close> to the shared \<^verbatim>\<open>err\<close> before the writer reads it again in
  \<^verbatim>\<open>errors.Wrap\<close>: the writer returns \<^verbatim>\<open>nil\<close>, and \<^verbatim>\<open>Copy\<close> returns no error although
  the writer wrote the header and 5 bytes of payload only, and no terminator.
\<close>

theorem Copy_success_after_failed_copy:
  "0 < GetLength broken_file \<and>
   returned (fst (Copy (copy_client None) broken_file race_run world0)) = Some None \<and>
   map_option requests (stdin_of (fst (Copy (copy_client None) broken_file race_run world0))) =
     Some [''C0644 12 motd'' @ newline, ''hello''] \<and>
   map_option accepted (stdin_of (fst (Copy (copy_client None) broken_file race_run world0))) =
     Some (''C0644 12 motd'' @ newline @ ''hello'')"
  by (simp add: copy_eval)






section \<open>Copy and the join\<close>

text \<open>
  When \<^verbatim>\<open>Copy\<close> has returned, either it returned the error built from the variable
  \<^verbatim>\<open>err\<close> after \<^verbatim>\<open>sess.CombinedOutput\<close>, or the writer has returned and its result is
  the result of \<^verbatim>\<open>Copy\<close>.
\<close>

lemma Copy_joined_unless_command_error:
  assumes "c (calls w) = Inr s" and "fst (Copy c f ts w) = Threads st" and "pc_main st = MRet r"
  shows "(\<exists>x. r = Some (ScpFailed (scp_cmd f) x (merged (exec s (scp_cmd f))))) \<or>
         pc_task st = WDone r"
  using Copy_inv(1) [OF assms(1,2)] assms(3)
  by (auto simp: copy_inv_def split: prod.splits)

text \<open>
  Claim C1 at a failing input. The remote command exits with status 3 and the caller
  takes its two steps before the writer is scheduled: \<^verbatim>\<open>Copy\<close> has returned the
  command's error, while the writer has written nothing and has not closed the channel.
\<close>

theorem Copy_returns_before_writer:
  "returned (fst (Copy demo_client demo_file [Main, Main] world0)) =
     Some (Some (ScpFailed ''sudo mkdir -p /etc && sudo scp -t /etc'' (ExitError 3)
                   (''hi'' @ ''lo'' @ newline @ newline))) \<and>
   map_option closes (stdin_of (fst (Copy demo_client demo_file [Main, Main] world0))) = Some 0 \<and>
   map_option requests (stdin_of (fst (Copy demo_client demo_file [Main, Main] world0))) = Some []"
  by (simp add: copy_eval)


section \<open>The error of teeSSH\<close>




section \<open>Sessions\<close>

lemma teeSSH_world:
  "calls (snd (snd (teeSSH s cmd a b h w))) = calls w \<and>
   opened (snd (snd (teeSSH s cmd a b h w))) = opened w \<and>
   closed (snd (snd (teeSSH s cmd a b h w))) = closed w"
  by (auto simp: teeSSH_def Let_def log_tee_def split: option.splits)

lemma teeSSH_sid: "teeSSH (s\<lparr>sid := k\<rparr>) cmd a b h w = teeSSH s cmd a b h w"
  by (simp add: teeSSH_def cong: option.case_cong)

lemma teeSSH_closeErr: "teeSSH (s\<lparr>closeErr := x\<rparr>) cmd a b h w = teeSSH s cmd a b h w"
  by (simp add: teeSSH_def cong: option.case_cong)

lemma teeSSH_errlog:
  "errlog w' = errlog w \<Longrightarrow>
     errlog (snd (snd (teeSSH s cmd a b h w'))) = errlog (snd (snd (teeSSH s cmd a b h w)))"
  by (auto simp: teeSSH_def Let_def log_tee_def split: option.splits)

text \<open>
  Claim C6, amended. The runner holds the client only, so a call can use no session but
  the one it creates. On a client whose \<^verbatim>\<open>NewSession\<close> succeeds, each of \<^verbatim>\<open>Run\<close>,
  \<^verbatim>\<open>CombinedOutput\<close>, \<^verbatim>\<open>CombinedOutputTo\<close> and \<^verbatim>\<open>Remove\<close> creates one session and
  closes it once before it returns; the result of \<^verbatim>\<open>Close\<close> never changes the result
  of the call; \<^verbatim>\<open>Run\<close> logs a close error other than \<^verbatim>\<open>io.EOF\<close>, the other three write
  no line for it. \<^verbatim>\<open>Copy\<close> creates one session.
\<close>

theorem session_per_call:
  assumes "c (calls w) = Inr s"
  shows
    "opened (snd (Run c cmd w)) = opened w @ [calls w] \<and>
     closed (snd (Run c cmd w)) = closed w @ [calls w] \<and>
     calls (snd (Run c cmd w)) = calls w + 1 \<and>
     fst (Run (c(calls w := Inr (s\<lparr>closeErr := x\<rparr>))) cmd w) = fst (Run c cmd w) \<and>
     errlog (snd (Run c cmd w)) =
       errlog (snd (snd (teeSSH s cmd 0 1 no_buffers w))) @ close_lines s \<and>
     opened (snd (CombinedOutput c cmd w)) = opened w @ [calls w] \<and>
     closed (snd (CombinedOutput c cmd w)) = closed w @ [calls w] \<and>
     calls (snd (CombinedOutput c cmd w)) = calls w + 1 \<and>
     fst (CombinedOutput (c(calls w := Inr (s\<lparr>closeErr := x\<rparr>))) cmd w) =
       fst (CombinedOutput c cmd w) \<and>
     errlog (snd (CombinedOutput c cmd w)) = errlog (snd (snd (teeSSH s cmd 0 0 no_buffers w))) \<and>
     opened (snd (snd (CombinedOutputTo c cmd dst w))) = opened w @ [calls w] \<and>
     closed (snd (snd (CombinedOutputTo c cmd dst w))) = closed w @ [calls w] \<and>
     calls (snd (snd (CombinedOutputTo c cmd dst w))) = calls w + 1 \<and>
     fst (CombinedOutputTo (c(calls w := Inr (s\<lparr>closeErr := x\<rparr>))) cmd dst w) =
       fst (CombinedOutputTo c cmd dst w) \<and>
     errlog (snd (snd (CombinedOutputTo c cmd dst w))) =
       errlog (snd (snd (teeSSH s cmd 0 0 no_buffers w))) \<and>
     opened (snd (Remove g c f w)) = opened w @ [calls w] \<and>
     closed (snd (Remove g c f w)) = closed w @ [calls w] \<and>
     calls (snd (Remove g c f w)) = calls w + 1 \<and>
     fst (Remove g (c(calls w := Inr (s\<lparr>closeErr := x\<rparr>))) f w) = fst (Remove g c f w) \<and>
     errlog (snd (Remove g c f w)) = errlog w \<and>
     opened (snd (Copy c f ts w)) = opened w @ [calls w] \<and>
     calls (snd (Copy c f ts w)) = calls w + 1"
proof -
  let ?w1 = "w\<lparr>calls := calls w + 1, opened := opened w @ [calls w]\<rparr>"
  let ?s1 = "s\<lparr>sid := calls w\<rparr>"
  have ns: "NewSession c w = (Inr ?s1, ?w1)"
    using assms by (simp add: NewSession_def)
  have ns': "NewSession (c(calls w := Inr (s\<lparr>closeErr := x\<rparr>))) w = (Inr (?s1\<lparr>closeErr := x\<rparr>), ?w1)"
    by (simp add: NewSession_def)
  note tw = teeSSH_world [of ?s1 cmd _ _ no_buffers ?w1]
  have tl: "errlog (snd (snd (teeSSH ?s1 cmd a b no_buffers ?w1))) =
            errlog (snd (snd (teeSSH s cmd a b no_buffers w)))" for a b
    using teeSSH_errlog [of ?w1 w ?s1 cmd a b no_buffers] by (simp add: teeSSH_sid)
  have run: "opened (snd (Run c cmd w)) = opened w @ [calls w] \<and>
     closed (snd (Run c cmd w)) = closed w @ [calls w] \<and>
     calls (snd (Run c cmd w)) = calls w + 1 \<and>
     fst (Run (c(calls w := Inr (s\<lparr>closeErr := x\<rparr>))) cmd w) = fst (Run c cmd w) \<and>
     errlog (snd (Run c cmd w)) =
       errlog (snd (snd (teeSSH s cmd 0 1 no_buffers w))) @ close_lines s"
    using tw [of 0 1] tl [of 0 1]
    by (cases "teeSSH ?s1 cmd 0 1 no_buffers ?w1")
       (auto simp: Run_def ns ns' Close_def log_close_def close_lines_def teeSSH_closeErr
          split: option.splits)
  have co: "opened (snd (CombinedOutput c cmd w)) = opened w @ [calls w] \<and>
     closed (snd (CombinedOutput c cmd w)) = closed w @ [calls w] \<and>
     calls (snd (CombinedOutput c cmd w)) = calls w + 1 \<and>
     fst (CombinedOutput (c(calls w := Inr (s\<lparr>closeErr := x\<rparr>))) cmd w) =
       fst (CombinedOutput c cmd w) \<and>
     errlog (snd (CombinedOutput c cmd w)) = errlog (snd (snd (teeSSH s cmd 0 0 no_buffers w)))"
    using tw [of 0 0] tl [of 0 0]
    by (cases "teeSSH ?s1 cmd 0 0 no_buffers ?w1")
       (auto simp: CombinedOutput_def ns ns' Close_def teeSSH_closeErr)
  have cot: "opened (snd (snd (CombinedOutputTo c cmd dst w))) = opened w @ [calls w] \<and>
     closed (snd (snd (CombinedOutputTo c cmd dst w))) = closed w @ [calls w] \<and>
     calls (snd (snd (CombinedOutputTo c cmd dst w))) = calls w + 1 \<and>
     fst (CombinedOutputTo (c(calls w := Inr (s\<lparr>closeErr := x\<rparr>))) cmd dst w) =
       fst (CombinedOutputTo c cmd dst w) \<and>
     errlog (snd (snd (CombinedOutputTo c cmd dst w))) =
       errlog (snd (snd (teeSSH s cmd 0 0 no_buffers w)))"
    using co
    by (cases "CombinedOutput c cmd w";
        cases "CombinedOutput (c(calls w := Inr (s\<lparr>closeErr := x\<rparr>))) cmd w")
       (auto simp: CombinedOutputTo_def split: option.splits prod.splits)
  have rm: "opened (snd (Remove g c f w)) = opened w @ [calls w] \<and>
     closed (snd (Remove g c f w)) = closed w @ [calls w] \<and>
     calls (snd (Remove g c f w)) = calls w + 1 \<and>
     fst (Remove g (c(calls w := Inr (s\<lparr>closeErr := x\<rparr>))) f w) = fst (Remove g c f w) \<and>
     errlog (snd (Remove g c f w)) = errlog w"
    by (simp add: Remove_def ns ns' Close_def Let_def)
  have cp: "opened (snd (Copy c f ts w)) = opened w @ [calls w] \<and>
     calls (snd (Copy c f ts w)) = calls w + 1"
    by (simp add: Copy_def ns split: sum.splits)
  show ?thesis
    using run co cot rm cp by simp
qed

lemmas run_eval = Run_def CombinedOutput_def CombinedOutputTo_def Remove_def NewSession_def
  teeSSH_def Close_def log_close_def log_tee_def close_lines_def tee_lines_def

text \<open>
  The claim as stated fails twice: \<^verbatim>\<open>Copy\<close> leaves its session open, and
  \<^verbatim>\<open>CombinedOutput\<close> logs nothing when closing fails with an error other than
  \<^verbatim>\<open>io.EOF\<close>.
\<close>

theorem session_close_counterexample:
  "opened (snd (Copy demo_client demo_file full_run world0)) = [0] \<and>
   closed (snd (Copy demo_client demo_file full_run world0)) = [] \<and>
   closeErr demo_session = Some (Failure ''closing'') \<and>
   errlog (snd (CombinedOutput demo_client ''true'' world0)) = [TeeStderr (Failure ''read'')]"
  by (simp add: copy_eval run_eval)

theorem session_per_call_witness:
  "demo_client (calls world0) = Inr demo_session \<and>
   opened (snd (Run demo_client ''true'' world0)) = [0] \<and>
   closed (snd (Run demo_client ''true'' world0)) = [0] \<and>
   errlog (snd (Run demo_client ''true'' world0)) =
     [TeeStderr (Failure ''read''), SessionClose (Failure ''closing'')] \<and>
   closed (snd (Remove scp_cmd demo_client demo_file world0)) = [0] \<and>
   errlog (snd (Remove scp_cmd demo_client demo_file world0)) = []"
  using session_per_call [where c = demo_client and w = world0 and s = demo_session and
      cmd = "''true''" and x = None and dst = "new_writer None" and g = scp_cmd and
      f = demo_file and ts = full_run]
  by (simp add: demo_defs run_eval)

section \<open>Concurrent writes to the capture buffer\<close>

lemma sw_inv_init: "sw_inv xs ys (sw_init xs ys)"
  by (auto simp: sw_inv_def sw_init_def)

lemma snoc_in_shuffles: "ys @ [p] \<in> shuffles [p] ys"
  by (induction ys) simp_all

lemma shuffles_snoc_left: "zs \<in> shuffles xs ys \<Longrightarrow> zs @ [p] \<in> shuffles (xs @ [p]) ys"
proof (induction xs ys arbitrary: zs rule: shuffles.induct)
  case (1 ys)
  then show ?case
    using snoc_in_shuffles [of ys p] by simp
next
  case (2 xs)
  then show ?case by simp
next
  case (3 x xs y ys)
  then show ?case by auto
qed

lemma shuffles_snoc_right: "zs \<in> shuffles xs ys \<Longrightarrow> zs @ [p] \<in> shuffles xs (ys @ [p])"
  using shuffles_snoc_left [of zs ys xs p] by (simp add: shuffles_commutes)

lemma shuffles_concat_length:
  "zs \<in> shuffles xs ys \<Longrightarrow> length (concat zs) = length (concat xs) + length (concat ys)"
  by (induction xs ys arbitrary: zs rule: shuffles.induct) auto


lemma sw_inv_step:
  assumes "sw_inv xs ys st"
  shows "sw_inv xs ys (sw_step t st)"
proof -
  from assms obtain dx dy zs part where
    X: "xs = dx @ t_todo (t_out st)" and Y: "ys = dy @ t_todo (t_err st)" and
    Z: "zs \<in> shuffles dx dy" and B: "sw_b st = concat zs @ part" and
    M: "case sw_mu st of
           None \<Rightarrow> t_pc (t_out st) = Idle \<and> t_pc (t_err st) = Idle \<and> part = []
         | Some t \<Rightarrow>
             t_pc (thread_of (\<not> t) st) = Idle \<and>
             (\<exists>rest ps. t_pc (thread_of t st) = Copying rest \<and>
                        t_todo (thread_of t st) = (part @ rest) # ps)"
    unfolding sw_inv_def by blast
  show ?thesis
  proof (cases "t_pc (thread_of t st)")
    case Idle
    show ?thesis
    proof (cases "t_todo (thread_of t st)")
      case Nil
      then show ?thesis
        using assms Idle by (simp add: sw_step_def)
    next
      case (Cons p ps)
      show ?thesis
      proof (cases "sw_mu st")
        case (Some h)
        then show ?thesis
          using assms Idle Cons by (simp add: sw_step_def)
      next
        case None
        then have step: "sw_step t st =
            set_thread t ((thread_of t st)\<lparr>t_pc := Copying p\<rparr>) (st\<lparr>sw_mu := Some t\<rparr>)"
          using Idle Cons by (simp add: sw_step_def)
        have part: "part = []" and idle: "t_pc (t_out st) = Idle" "t_pc (t_err st) = Idle"
          using M None by simp_all
        show ?thesis
          unfolding sw_inv_def step
          apply (rule exI [of _ dx], rule exI [of _ dy], rule exI [of _ zs], rule exI [of _ "[]"])
          using X Y Z B part idle Cons
          by (auto simp: thread_of_def set_thread_def)
      qed
    qed
  next
    case (Copying r)
    then have mu: "sw_mu st = Some t"
      using M by (cases "sw_mu st"; cases t) (auto simp: thread_of_def split: if_splits)
    then obtain ps where idle: "t_pc (thread_of (\<not> t) st) = Idle"
      and todo: "t_todo (thread_of t st) = (part @ r) # ps"
      using M Copying by auto
    show ?thesis
    proof (cases r)
      case Nil
      then have step: "sw_step t st =
          set_thread t ((thread_of t st)\<lparr>t_pc := Idle, t_todo := ps\<rparr>) (st\<lparr>sw_mu := None\<rparr>)"
        using Copying todo by (simp add: sw_step_def)
      show ?thesis
      proof (cases t)
        case True
        have "zs @ [part] \<in> shuffles (dx @ [part]) dy"
          using Z by (rule shuffles_snoc_left)
        then show ?thesis
          unfolding sw_inv_def step
          apply -
          apply (rule exI [of _ "dx @ [part]"], rule exI [of _ dy], rule exI [of _ "zs @ [part]"],
              rule exI [of _ "[]"])
          using X Y B idle todo True Nil
          by (auto simp: thread_of_def set_thread_def)
      next
        case False
        have "zs @ [part] \<in> shuffles dx (dy @ [part])"
          using Z by (rule shuffles_snoc_right)
        then show ?thesis
          unfolding sw_inv_def step
          apply -
          apply (rule exI [of _ dx], rule exI [of _ "dy @ [part]"], rule exI [of _ "zs @ [part]"],
              rule exI [of _ "[]"])
          using X Y B idle todo False Nil
          by (auto simp: thread_of_def set_thread_def)
      qed
    next
      case (Cons x r')
      then have step: "sw_step t st =
          set_thread t ((thread_of t st)\<lparr>t_pc := Copying r'\<rparr>) (st\<lparr>sw_b := sw_b st @ [x]\<rparr>)"
        using Copying by (simp add: sw_step_def)
      show ?thesis
        unfolding sw_inv_def step
        apply (rule exI [of _ dx], rule exI [of _ dy], rule exI [of _ zs],
            rule exI [of _ "part @ [x]"])
        using X Y Z B idle todo mu Cons
        by (cases t) (auto simp: thread_of_def set_thread_def)
    qed
  qed
qed

lemma sw_inv_run: "sw_inv xs ys st \<Longrightarrow> sw_inv xs ys (sw_run ts st)"
  by (induction ts arbitrary: st) (simp_all add: sw_inv_step)

lemma sw_exec_inv: "sw_inv xs ys st \<Longrightarrow> sw_inv xs ys (sw_exec ch st)"
proof (induction ch st rule: sw_exec.induct)
  case (1 ch st)
  show ?case
    using 1 by (subst sw_exec.simps) (auto simp: sw_inv_step split: list.splits)
qed

lemma sw_exec_stops: "\<not> enabled t (sw_exec ch st)"
proof (induction ch st rule: sw_exec.induct)
  case (1 ch st)
  show ?case
    using 1 by (subst sw_exec.simps) (cases t; auto split: list.splits)
qed

lemma stopped_finished:
  assumes "sw_inv xs ys st" and "\<not> enabled True st" and "\<not> enabled False st"
  shows "finished st"
proof (cases "sw_mu st")
  case None
  then show ?thesis
    using assms by (auto simp: sw_inv_def enabled_def finished_def thread_of_def split: tpc.splits)
next
  case (Some t)
  then have "enabled t st"
    using assms(1) by (auto simp: sw_inv_def enabled_def)
  then show ?thesis
    using assms(2,3) by (cases t) auto
qed


lemma enabled_step_work: "enabled t st \<Longrightarrow> work (sw_step t st) < work st"
proof (cases "t_pc (thread_of t st)")
  case Idle
  assume en: "enabled t st"
  then obtain p ps where "t_todo (thread_of t st) = p # ps" "sw_mu st = None"
    using Idle by (cases "t_todo (thread_of t st)") (auto simp: enabled_def)
  then show ?thesis
    using Idle
    by (cases t)
       (auto simp: sw_step_def work_def work_thread_def thread_of_def set_thread_def Let_def)
next
  case (Copying r)
  then show ?thesis
    by (cases r; cases t)
       (auto simp: sw_step_def work_def work_thread_def thread_of_def set_thread_def Let_def)
qed

lemma sw_exec_is_run: "\<exists>sched. sw_exec ch st = sw_run sched st"
proof (induction ch st rule: sw_exec.induct)
  case (1 ch st)
  have step: "\<exists>sched. sw_exec ch' (sw_step t st) = sw_run sched st"
    if "\<exists>sched. sw_exec ch' (sw_step t st) = sw_run sched (sw_step t st)" for ch' t
  proof -
    from that obtain sched where "sw_exec ch' (sw_step t st) = sw_run sched (sw_step t st)"
      by blast
    then have "sw_exec ch' (sw_step t st) = sw_run (t # sched) st"
      by simp
    then show ?thesis ..
  qed
  have stay: "\<exists>sched. st = sw_run sched st"
    by (rule exI [of _ "[]"]) simp
  show ?case
    using 1 step stay by (subst sw_exec.simps) (auto split: list.splits)
qed

text \<open>
  Claim C9. For all chunk lists of the two tees and every order in which they get the
  mutex, the run ends with both tees returned from all their calls, and the buffer is
  then the concatenation of an interleaving of the two chunk lists, so that its length
  is the sum of the bytes of both streams. Under every schedule of single steps, the
  buffer holds whole chunks, in an order that interleaves the chunks each tee has
  finished writing, followed by the part already appended of the chunk of the thread
  that holds the mutex; as long as a tee has not finished, some thread can take a step,
  and each such step leaves less work; and a schedule after which both tees are
  finished leaves the same buffer as above.
\<close>

theorem singleWriter_atomic:
  "finished (sw_exec ch (sw_init xs ys)) \<and>
   (\<exists>zs \<in> shuffles xs ys. sw_b (sw_exec ch (sw_init xs ys)) = concat zs) \<and>
   length (sw_b (sw_exec ch (sw_init xs ys))) = length (concat xs) + length (concat ys) \<and>
   (\<exists>dx dy zs part.
       xs = dx @ t_todo (t_out (sw_run sched (sw_init xs ys))) \<and>
       ys = dy @ t_todo (t_err (sw_run sched (sw_init xs ys))) \<and>
       zs \<in> shuffles dx dy \<and>
       sw_b (sw_run sched (sw_init xs ys)) = concat zs @ part \<and>
       (sw_mu (sw_run sched (sw_init xs ys)) = None \<longrightarrow> part = []) \<and>
       (\<forall>t. sw_mu (sw_run sched (sw_init xs ys)) = Some t \<longrightarrow>
          (\<exists>rest ps. t_todo (thread_of t (sw_run sched (sw_init xs ys))) = (part @ rest) # ps))) \<and>
   (\<not> finished (sw_run sched (sw_init xs ys)) \<longrightarrow>
      (\<exists>t. enabled t (sw_run sched (sw_init xs ys)) \<and>
           work (sw_step t (sw_run sched (sw_init xs ys))) < work (sw_run sched (sw_init xs ys)))) \<and>
   (finished (sw_run sched (sw_init xs ys)) \<longrightarrow>
      (\<exists>zs \<in> shuffles xs ys. sw_b (sw_run sched (sw_init xs ys)) = concat zs) \<and>
      length (sw_b (sw_run sched (sw_init xs ys))) = length (concat xs) + length (concat ys))"
proof -
  have fin_facts: "(\<exists>zs \<in> shuffles xs ys. sw_b st = concat zs) \<and>
      length (sw_b st) = length (concat xs) + length (concat ys)"
    if inv: "sw_inv xs ys st" and fin: "finished st" for st
  proof -
    from inv obtain dx dy zs part where
      X: "xs = dx @ t_todo (t_out st)" and Y: "ys = dy @ t_todo (t_err st)" and
      Z: "zs \<in> shuffles dx dy" and B: "sw_b st = concat zs @ part" and
      M: "case sw_mu st of
             None \<Rightarrow> t_pc (t_out st) = Idle \<and> t_pc (t_err st) = Idle \<and> part = []
           | Some t \<Rightarrow>
               t_pc (thread_of (\<not> t) st) = Idle \<and>
               (\<exists>rest ps. t_pc (thread_of t st) = Copying rest \<and>
                          t_todo (thread_of t st) = (part @ rest) # ps)"
      unfolding sw_inv_def by blast
    have todo: "t_todo (t_out st) = []" "t_todo (t_err st) = []"
      and idle: "t_pc (t_out st) = Idle" "t_pc (t_err st) = Idle"
      using fin by (simp_all add: finished_def)
    have "sw_mu st = None"
      using M idle by (cases "sw_mu st") (auto simp: thread_of_def split: if_splits)
    then have "part = []" using M by simp
    then have "zs \<in> shuffles xs ys" "sw_b st = concat zs"
      using X Y Z B todo by simp_all
    then show ?thesis
      using shuffles_concat_length [of zs xs ys] by auto
  qed
  let ?end = "sw_exec ch (sw_init xs ys)"
  have inv_end: "sw_inv xs ys ?end"
    by (rule sw_exec_inv [OF sw_inv_init])
  have fin_end: "finished ?end"
    by (rule stopped_finished [OF inv_end sw_exec_stops sw_exec_stops])
  let ?st = "sw_run sched (sw_init xs ys)"
  have inv_st: "sw_inv xs ys ?st"
    by (rule sw_inv_run [OF sw_inv_init])
  then obtain dx dy zs part where
    X: "xs = dx @ t_todo (t_out ?st)" and Y: "ys = dy @ t_todo (t_err ?st)" and
    Z: "zs \<in> shuffles dx dy" and B: "sw_b ?st = concat zs @ part" and
    M: "case sw_mu ?st of
           None \<Rightarrow> t_pc (t_out ?st) = Idle \<and> t_pc (t_err ?st) = Idle \<and> part = []
         | Some t \<Rightarrow>
             t_pc (thread_of (\<not> t) ?st) = Idle \<and>
             (\<exists>rest ps. t_pc (thread_of t ?st) = Copying rest \<and>
                        t_todo (thread_of t ?st) = (part @ rest) # ps)"
    unfolding sw_inv_def by blast
  have first: "\<exists>dx dy zs part.
       xs = dx @ t_todo (t_out ?st) \<and> ys = dy @ t_todo (t_err ?st) \<and>
       zs \<in> shuffles dx dy \<and> sw_b ?st = concat zs @ part \<and>
       (sw_mu ?st = None \<longrightarrow> part = []) \<and>
       (\<forall>t. sw_mu ?st = Some t \<longrightarrow>
          (\<exists>rest ps. t_todo (thread_of t ?st) = (part @ rest) # ps))"
    apply (rule exI [of _ dx], rule exI [of _ dy], rule exI [of _ zs], rule exI [of _ part])
    using X Y Z B M by (auto split: option.splits)
  have progress: "\<exists>t. enabled t ?st \<and> work (sw_step t ?st) < work ?st" if "\<not> finished ?st"
  proof -
    from that stopped_finished [OF inv_st] obtain t where "enabled t ?st"
      by (cases "enabled True ?st") auto
    then show ?thesis
      using enabled_step_work by blast
  qed
  show ?thesis
    using fin_end fin_facts [OF inv_end fin_end] first progress fin_facts [OF inv_st] by blast
qed


text \<open>A schedule of single steps on which the tees run one after the other.\<close>

lemma sw_run_append: "sw_run (ts @ us) st = sw_run us (sw_run ts st)"
  by (induction ts arbitrary: st) simp_all

lemma copying_run:
  "t_pc (thread_of t st) = Copying r \<Longrightarrow>
     sw_run (replicate (length r) t) st =
       set_thread t ((thread_of t st)\<lparr>t_pc := Copying []\<rparr>) (st\<lparr>sw_b := sw_b st @ r\<rparr>)"
proof (induction r arbitrary: st)
  case Nil
  then show ?case
    by (cases t) (simp_all add: thread_of_def set_thread_def)
next
  case (Cons x r)
  let ?st1 = "sw_step t st"
  have step: "?st1 = set_thread t ((thread_of t st)\<lparr>t_pc := Copying r\<rparr>) (st\<lparr>sw_b := sw_b st @ [x]\<rparr>)"
    using Cons.prems by (simp add: sw_step_def)
  then have "t_pc (thread_of t ?st1) = Copying r"
    by (cases t) (simp_all add: thread_of_def set_thread_def)
  from Cons.IH [OF this] show ?case
    using step by (cases t) (simp_all add: thread_of_def set_thread_def)
qed

lemma solo_run:
  "sw_mu st = None \<Longrightarrow> t_pc (thread_of t st) = Idle \<Longrightarrow> t_todo (thread_of t st) = ps \<Longrightarrow>
     sw_run (solo t ps) st =
       set_thread t \<lparr>t_pc = Idle, t_todo = []\<rparr> (st\<lparr>sw_b := sw_b st @ concat ps\<rparr>)"
proof (induction ps arbitrary: st)
  case Nil
  then show ?case
    by (cases t) (simp_all add: thread_of_def set_thread_def)
next
  case (Cons p ps)
  let ?st1 = "sw_step t st"
  have s1: "?st1 = set_thread t ((thread_of t st)\<lparr>t_pc := Copying p\<rparr>) (st\<lparr>sw_mu := Some t\<rparr>)"
    using Cons.prems by (simp add: sw_step_def)
  then have c1: "t_pc (thread_of t ?st1) = Copying p"
    by (cases t) (simp_all add: thread_of_def set_thread_def)
  let ?st2 = "sw_run (replicate (length p) t) ?st1"
  have s2: "?st2 = set_thread t ((thread_of t ?st1)\<lparr>t_pc := Copying []\<rparr>)
                     (?st1\<lparr>sw_b := sw_b ?st1 @ p\<rparr>)"
    by (rule copying_run [OF c1])
  let ?st3 = "sw_step t ?st2"
  have s3: "?st3 = set_thread t \<lparr>t_pc = Idle, t_todo = ps\<rparr> (st\<lparr>sw_b := sw_b st @ p\<rparr>)"
    using s1 s2 Cons.prems
    by (cases t) (simp_all add: sw_step_def thread_of_def set_thread_def)
  have pre: "sw_mu ?st3 = None" "t_pc (thread_of t ?st3) = Idle" "t_todo (thread_of t ?st3) = ps"
    using s3 Cons.prems(1) by (cases t; simp add: thread_of_def set_thread_def)+
  have "sw_run (solo t (p # ps)) st = sw_run (solo t ps) ?st3"
    by (simp add: sw_run_append)
  also have "\<dots> = set_thread t \<lparr>t_pc = Idle, t_todo = []\<rparr> (?st3\<lparr>sw_b := sw_b ?st3 @ concat ps\<rparr>)"
    by (rule Cons.IH [OF pre])
  also have "\<dots> = set_thread t \<lparr>t_pc = Idle, t_todo = []\<rparr> (st\<lparr>sw_b := sw_b st @ concat (p # ps)\<rparr>)"
    using s3 by (cases t) (simp_all add: set_thread_def)
  finally show ?case .
qed

lemma singleWriter_finishes:
  "finished (sw_run (solo True xs @ solo False ys) (sw_init xs ys)) \<and>
   sw_b (sw_run (solo True xs @ solo False ys) (sw_init xs ys)) = concat xs @ concat ys"
proof -
  have a: "sw_run (solo True xs) (sw_init xs ys) =
      set_thread True \<lparr>t_pc = Idle, t_todo = []\<rparr> ((sw_init xs ys)\<lparr>sw_b := concat xs\<rparr>)"
    using solo_run [of "sw_init xs ys" True xs] by (simp add: sw_init_def thread_of_def)
  let ?m = "set_thread True \<lparr>t_pc = Idle, t_todo = []\<rparr> ((sw_init xs ys)\<lparr>sw_b := concat xs\<rparr>)"
  have b: "sw_run (solo False ys) ?m =
      set_thread False \<lparr>t_pc = Idle, t_todo = []\<rparr> (?m\<lparr>sw_b := sw_b ?m @ concat ys\<rparr>)"
    using solo_run [of ?m False ys] by (simp add: sw_init_def thread_of_def set_thread_def)
  have "sw_run (solo True xs @ solo False ys) (sw_init xs ys) =
      set_thread False \<lparr>t_pc = Idle, t_todo = []\<rparr> (?m\<lparr>sw_b := sw_b ?m @ concat ys\<rparr>)"
    by (simp only: sw_run_append a b)
  then show ?thesis
    by (simp add: finished_def set_thread_def sw_init_def)
qed

lemmas sw_eval = sw_step_def sw_init_def thread_of_def set_thread_def finished_def demo_sched_def Let_def

lemmas sw_eval2 = sw_eval sw_exec.simps enabled_def

theorem singleWriter_atomic_witness:
  "finished (sw_exec [False, True] (sw_init [''ab'', ''c''] [''de''])) \<and>
   sw_b (sw_exec [False, True] (sw_init [''ab'', ''c''] [''de''])) = ''deabc'' \<and>
   sw_b (sw_exec [True, False] (sw_init [''ab'', ''c''] [''de''])) = ''abdec'' \<and>
   finished (sw_run demo_sched (sw_init [''ab'', ''c''] [''de''])) \<and>
   sw_mu (sw_run demo_sched (sw_init [''ab'', ''c''] [''de''])) = None \<and>
   sw_b (sw_run demo_sched (sw_init [''ab'', ''c''] [''de''])) = ''abdec'' \<and>
   length (sw_b (sw_run demo_sched (sw_init [''ab'', ''c''] [''de'']))) =
     length (concat [''ab'', ''c'']) + length (concat [''de'']) \<and>
   sw_mu (sw_run [True, True] (sw_init [''ab'', ''c''] [''de''])) = Some True \<and>
   \<not> finished (sw_run [True, True] (sw_init [''ab'', ''c''] [''de''])) \<and>
   enabled True (sw_run [True, True] (sw_init [''ab'', ''c''] [''de''])) \<and>
   sw_b (sw_run [True, True] (sw_init [''ab'', ''c''] [''de''])) = ''a''"
  using singleWriter_atomic [of "[False, True]" "[''ab'', ''c'']" "[''de'']" demo_sched]
    singleWriter_atomic [of "[True, False]" "[''ab'', ''c'']" "[''de'']" "[True, True]"]
  by (simp add: sw_eval2)


end
